theory Spec2Isabelle
  imports Complex_Main "HOL-Library.Multiset"
begin

section \<open>Data model of \<^verbatim>\<open>AStar.ts\<close>\<close>

text \<open>
  JavaScript numbers are modelled as follows: array indices and the coordinates
  \<^verbatim>\<open>x\<close>, \<^verbatim>\<open>y\<close> are mathematical integers, the weight \<^verbatim>\<open>w\<close> and the scores
  \<^verbatim>\<open>f\<close>, \<^verbatim>\<open>g\<close>, \<^verbatim>\<open>h\<close> are real numbers (no rounding, no NaN, no infinities). The sums
  \<^verbatim>\<open>g + cost\<close> and \<^verbatim>\<open>g + h\<close> of \<^verbatim>\<open>search\<close> are exact in the model and rounded in the code;
  the theorem on cheapest paths is therefore stated for inputs on which no sum is rounded
  (\<open>integer_costs\<close> below), and it includes that none is.

  A \<^verbatim>\<open>GridNode\<close> object is split in two. Its fields \<^verbatim>\<open>x\<close>, \<^verbatim>\<open>y\<close>, \<^verbatim>\<open>w\<close> are
  written once by the \<^verbatim>\<open>Graph\<close> constructor and never again; they are the record
  \<open>GridNode\<close> below and stand for the identity of the object (the constructor makes one
  object per cell, so two nodes of one graph are the same object exactly when these
  fields agree). Its mutable fields \<^verbatim>\<open>f\<close>, \<^verbatim>\<open>g\<close>, \<^verbatim>\<open>h\<close>, \<^verbatim>\<open>visited\<close>, \<^verbatim>\<open>closed\<close>,
  \<^verbatim>\<open>parent\<close> are the record \<open>NodeState\<close>, kept in the store \<open>nodeState\<close> of the graph,
  so that every reference to a node (from the grid, the dirty list, the heap or a
  \<^verbatim>\<open>parent\<close> field) sees the same fields.
\<close>

record GridNode =
  node_x :: int
  node_y :: int
  node_w :: real

record NodeState =
  node_f :: real
  node_g :: real
  node_h :: real
  visited :: bool
  closed :: bool
  parent :: "GridNode option"

record Graph =
  nodes :: "GridNode list"
  grid :: "GridNode list list"
  diagonal :: bool
  dirtyNodes :: "GridNode list"
  nodeState :: "GridNode \<Rightarrow> NodeState"

text \<open>Reading \<^verbatim>\<open>a[i]\<close> from a JavaScript array: \<^verbatim>\<open>undefined\<close> (here \<open>None\<close>) outside
  \<open>0 .. length - 1\<close>.\<close>

definition js_nth :: "'a list \<Rightarrow> int \<Rightarrow> 'a option" where
  "js_nth xs i = (if 0 \<le> i \<and> i < int (length xs) then Some (xs ! nat i) else None)"

subsection \<open>\<^verbatim>\<open>AStar.cleanNode\<close>, \<^verbatim>\<open>AStar.isNodeWall\<close>, \<^verbatim>\<open>AStar.getNodeCost\<close>, the heuristics\<close>

text \<open>The six assignments of \<^verbatim>\<open>cleanNode\<close> overwrite every mutable field.\<close>

definition clean_state :: NodeState where
  "clean_state =
     \<lparr>node_f = 0, node_g = 0, node_h = 0, visited = False, closed = False, parent = None\<rparr>"

definition cleanNode :: "Graph \<Rightarrow> GridNode \<Rightarrow> Graph" where
  "cleanNode g node = g\<lparr>nodeState := (nodeState g)(node := clean_state)\<rparr>"

definition isNodeWall :: "GridNode \<Rightarrow> bool" where
  "isNodeWall node = (node_w node = 0)"

definition getNodeCost :: "GridNode \<Rightarrow> GridNode option \<Rightarrow> real" where
  "getNodeCost node fromNeighbor =
     (case fromNeighbor of
        Some from \<Rightarrow>
          if node_x from \<noteq> node_x node \<and> node_y from \<noteq> node_y node
          then node_w node * 1.41421
          else node_w node
      | None \<Rightarrow> node_w node)"

text \<open>A heuristic receives two objects with fields \<^verbatim>\<open>x\<close> and \<^verbatim>\<open>y\<close>.\<close>

type_synonym pos = "int \<times> int"

definition pos_of :: "GridNode \<Rightarrow> pos" where
  "pos_of node = (node_x node, node_y node)"

definition manhattan :: "pos \<Rightarrow> pos \<Rightarrow> real" where
  "manhattan pos0 pos1 =
     real_of_int (\<bar>fst pos1 - fst pos0\<bar>) + real_of_int (\<bar>snd pos1 - snd pos0\<bar>)"

definition diagonal_heuristic :: "pos \<Rightarrow> pos \<Rightarrow> real" where
  "diagonal_heuristic pos0 pos1 =
     (let D = 1; D2 = sqrt 2;
          d1 = real_of_int (\<bar>fst pos1 - fst pos0\<bar>);
          d2 = real_of_int (\<bar>snd pos1 - snd pos0\<bar>)
      in (D * (d1 + d2)) + ((D2 - (2 * D)) * min d1 d2))"

subsection \<open>Class \<^verbatim>\<open>Graph\<close>\<close>

definition init :: "Graph \<Rightarrow> Graph" where
  "init g = foldl cleanNode (g\<lparr>dirtyNodes := []\<rparr>) (nodes g)"

text \<open>The constructor: one node per cell of the weight matrix, \<^verbatim>\<open>x\<close> the row index and
  \<^verbatim>\<open>y\<close> the column index; then \<^verbatim>\<open>init\<close>. The mutable fields of a fresh node do not
  exist until \<^verbatim>\<open>init\<close> writes them, for every node of the graph; the store that \<^verbatim>\<open>init\<close>
  starts from is therefore irrelevant and taken to be clean everywhere.\<close>

definition make_row :: "nat \<Rightarrow> real list \<Rightarrow> GridNode list" where
  "make_row i row =
     map (\<lambda>j. \<lparr>node_x = int i, node_y = int j, node_w = row ! j\<rparr>) [0 ..< length row]"

definition new_Graph :: "real list list \<Rightarrow> bool \<Rightarrow> Graph" where
  "new_Graph gridIn diag =
     (let rows = map (\<lambda>i. make_row i (gridIn ! i)) [0 ..< length gridIn]
      in init \<lparr>nodes = concat rows, grid = rows, diagonal = diag, dirtyNodes = [],
               nodeState = (\<lambda>_. clean_state)\<rparr>)"

definition markDirty :: "Graph \<Rightarrow> GridNode \<Rightarrow> Graph" where
  "markDirty g node = g\<lparr>dirtyNodes := dirtyNodes g @ [node]\<rparr>"

definition cleanDirty :: "Graph \<Rightarrow> Graph" where
  "cleanDirty g = (foldl cleanNode g (dirtyNodes g))\<lparr>dirtyNodes := []\<rparr>"

text \<open>\<^verbatim>\<open>grid[i] && grid[i][j]\<close>: a row that exists is an array, a cell that exists is an
  object, and both are truthy; what is out of range is \<^verbatim>\<open>undefined\<close>.\<close>

definition grid_at :: "GridNode list list \<Rightarrow> int \<Rightarrow> int \<Rightarrow> GridNode option" where
  "grid_at gr i j = (case js_nth gr i of None \<Rightarrow> None | Some row \<Rightarrow> js_nth row j)"

definition push_cell :: "GridNode list \<Rightarrow> GridNode option \<Rightarrow> GridNode list" where
  "push_cell ret cell = (case cell of None \<Rightarrow> ret | Some n \<Rightarrow> ret @ [n])"

definition neighbors :: "Graph \<Rightarrow> GridNode \<Rightarrow> GridNode list" where
  "neighbors g node =
     (let ret = [];
          x = node_x node;
          y = node_y node;
          gr = grid g;
          ret = push_cell ret (grid_at gr (x - 1) y);
          ret = push_cell ret (grid_at gr (x + 1) y);
          ret = push_cell ret (grid_at gr x (y - 1));
          ret = push_cell ret (grid_at gr x (y + 1))
      in if diagonal g then
           (let ret = push_cell ret (grid_at gr (x - 1) (y - 1));
                ret = push_cell ret (grid_at gr (x + 1) (y - 1));
                ret = push_cell ret (grid_at gr (x - 1) (y + 1));
                ret = push_cell ret (grid_at gr (x + 1) (y + 1))
            in ret)
         else ret)"

text \<open>The neighbour list as the specification words it: the candidate positions in the
  fixed order Left, Right, Down, Up and, with diagonal movement, Down-Left, Down-Right,
  Up-Left, Up-Right; those inside the grid are kept, the others dropped.\<close>

definition in_bounds :: "GridNode list list \<Rightarrow> pos \<Rightarrow> bool" where
  "in_bounds gr p =
     (0 \<le> fst p \<and> fst p < int (length gr) \<and>
      0 \<le> snd p \<and> snd p < int (length (gr ! nat (fst p))))"

definition neighbors_spec :: "Graph \<Rightarrow> GridNode \<Rightarrow> GridNode list" where
  "neighbors_spec g node =
     (let x = node_x node; y = node_y node;
          straight = [(x - 1, y), (x + 1, y), (x, y - 1), (x, y + 1)];
          diag = [(x - 1, y - 1), (x + 1, y - 1), (x - 1, y + 1), (x + 1, y + 1)];
          candidates = (if diagonal g then straight @ diag else straight)
      in map (\<lambda>p. grid g ! nat (fst p) ! nat (snd p))
             (filter (in_bounds (grid g)) candidates))"

definition baseline :: "NodeState \<Rightarrow> bool" where
  "baseline s = (node_f s = 0 \<and> node_g s = 0 \<and> node_h s = 0 \<and> \<not> visited s \<and>
                 \<not> closed s \<and> parent s = None)"

section \<open>Class \<^verbatim>\<open>BinaryHeap\<close>\<close>

text \<open>
  The array \<^verbatim>\<open>content\<close> is a list. \<^verbatim>\<open>remove\<close> can write \<^verbatim>\<open>content[-1]\<close> (when
  \<^verbatim>\<open>indexOf\<close> finds nothing), which in JavaScript sets the property \<^verbatim>\<open>"-1"\<close> of the
  array object and leaves its elements and its length alone; that property is the field
  \<open>content_m1\<close>. Reading any other index outside \<open>0 .. length - 1\<close> gives
  \<^verbatim>\<open>undefined\<close>. Applying the score function to \<^verbatim>\<open>undefined\<close> raises a
  \<^verbatim>\<open>TypeError\<close> (the score function of \<^verbatim>\<open>AStar.getHeap\<close> reads \<^verbatim>\<open>node.f\<close>). A write that
  would leave a hole in the array, or store \<^verbatim>\<open>undefined\<close> in it, is outside what a list
  represents and is the result \<open>NotModelled\<close>; the methods are shown never to reach it.

  The score function is fixed when the heap is constructed and reads the current fields
  of the node it is given; here it is a parameter of every operation.
  \<^verbatim>\<open>(n + 1) >> 1\<close> is \<open>(n + 1) div 2\<close> and \<^verbatim>\<open>(n + 1) << 1\<close> is \<open>(n + 1) * 2\<close> (indices stay
  far below \<open>2^31\<close>).
\<close>

datatype error = TypeError | NotModelled

definition bind_result :: "error + 'a \<Rightarrow> ('a \<Rightarrow> error + 'b) \<Rightarrow> error + 'b" where
  "bind_result m k = (case m of Inl e \<Rightarrow> Inl e | Inr v \<Rightarrow> k v)"

lemma bind_result_simps [simp]:
  "bind_result (Inl e) k = Inl e" "bind_result (Inr v) k = k v"
  by (simp_all add: bind_result_def)

lemma bind_result_cong [fundef_cong]:
  "m = m' \<Longrightarrow> (\<And>v. m' = Inr v \<Longrightarrow> k v = k' v) \<Longrightarrow> bind_result m k = bind_result m' k'"
  by (auto simp: bind_result_def split: sum.splits)

record 'a BinaryHeap =
  content :: "'a list"
  content_m1 :: "'a option"

definition content_get :: "'a BinaryHeap \<Rightarrow> int \<Rightarrow> 'a option" where
  "content_get h n = (if n = -1 then content_m1 h else js_nth (content h) n)"

definition content_set :: "'a BinaryHeap \<Rightarrow> int \<Rightarrow> 'a option \<Rightarrow> error + 'a BinaryHeap" where
  "content_set h n v =
     (if n = -1 then Inr (h\<lparr>content_m1 := v\<rparr>)
      else case v of
        None \<Rightarrow> Inl NotModelled
      | Some e \<Rightarrow>
          if 0 \<le> n \<and> n < int (length (content h))
          then Inr (h\<lparr>content := (content h)[nat n := e]\<rparr>)
          else if n = int (length (content h))
          then Inr (h\<lparr>content := content h @ [e]\<rparr>)
          else Inl NotModelled)"

definition score :: "('a \<Rightarrow> real) \<Rightarrow> 'a option \<Rightarrow> error + real" where
  "score scoreFunction v = (case v of None \<Rightarrow> Inl TypeError | Some e \<Rightarrow> Inr (scoreFunction e))"

function sinkDown_loop ::
  "('a \<Rightarrow> real) \<Rightarrow> 'a option \<Rightarrow> 'a BinaryHeap \<Rightarrow> int \<Rightarrow> error + 'a BinaryHeap" where
  "sinkDown_loop scoreFunction element h n =
     (if n > 0 then
        (let parentN = ((n + 1) div 2) - 1;
             parent = content_get h parentN
         in bind_result (score scoreFunction element) (\<lambda>elemScore.
            bind_result (score scoreFunction parent) (\<lambda>parentScore.
              if elemScore < parentScore then
                bind_result (content_set h parentN element) (\<lambda>h.
                bind_result (content_set h n parent) (\<lambda>h.
                  sinkDown_loop scoreFunction element h parentN))
              else Inr h)))
      else Inr h)"
  by pat_completeness auto
termination
  by (relation "measure (\<lambda>(scoreFunction, element, h, n). nat n)") auto

definition sinkDown :: "('a \<Rightarrow> real) \<Rightarrow> 'a BinaryHeap \<Rightarrow> int \<Rightarrow> error + 'a BinaryHeap" where
  "sinkDown scoreFunction h n = sinkDown_loop scoreFunction (content_get h n) h n"

text \<open>\<^verbatim>\<open>a < b\<close> where \<^verbatim>\<open>b\<close> may be \<^verbatim>\<open>undefined\<close>: false then.\<close>
definition less_js :: "real \<Rightarrow> real option \<Rightarrow> bool" where
  "less_js a b = (case b of None \<Rightarrow> False | Some b' \<Rightarrow> a < b')"

definition choose_swap ::
  "('a \<Rightarrow> real) \<Rightarrow> int \<Rightarrow> real \<Rightarrow> 'a BinaryHeap \<Rightarrow> int \<Rightarrow> error + int option" where
  "choose_swap scoreFunction len elemScore h n =
     (let child2N = (n + 1) * 2;
          child1N = child2N - 1;
          swap = None;
          child1Score = None
      in bind_result
           (if child1N < len then
              bind_result (score scoreFunction (content_get h child1N)) (\<lambda>c1.
                Inr (Some c1, if c1 < elemScore then Some child1N else swap))
            else Inr (child1Score, swap))
           (\<lambda>(child1Score, swap).
              if child2N < len then
                bind_result (score scoreFunction (content_get h child2N)) (\<lambda>child2Score.
                  Inr (if less_js child2Score (if swap = None then Some elemScore else child1Score)
                       then Some child2N else swap))
              else Inr swap))"

function bubbleUp_loop ::
  "('a \<Rightarrow> real) \<Rightarrow> int \<Rightarrow> 'a \<Rightarrow> 'a BinaryHeap \<Rightarrow> int \<Rightarrow> error + 'a BinaryHeap" where
  "bubbleUp_loop scoreFunction len element h n =
     (let elemScore = scoreFunction element
      in bind_result (choose_swap scoreFunction len elemScore h n) (\<lambda>swap.
           case swap of
             Some s \<Rightarrow>
               bind_result (content_set h n (content_get h s)) (\<lambda>h.
               bind_result (content_set h s (Some element)) (\<lambda>h.
                 bubbleUp_loop scoreFunction len element h s))
           | None \<Rightarrow> Inr h))"
  by pat_completeness auto

lemma choose_swap_Some:
  assumes "choose_swap sc len es h n = Inr (Some s)"
  shows "s < len \<and> (s = 2 * n + 1 \<or> s = 2 * n + 2) \<and>
         (\<exists>c. content_get h s = Some c \<and> sc c < es)"
  using assms
  by (auto simp: choose_swap_def Let_def score_def less_js_def
           split: if_splits option.splits sum.splits prod.splits)

lemma content_set_m1: "content_set h (-1) v = Inr h' \<Longrightarrow> content_m1 h' = v"
  by (auto simp: content_set_def)

termination bubbleUp_loop
proof (relation "measure (\<lambda>(sc, len, element, h, n).
          nat (2 * (len - n)) +
          (if n = -1 \<and> (\<exists>c. content_m1 h = Some c \<and> sc c < sc element) then 1 else 0))",
       goal_cases)
  case 1
  then show ?case by simp
next
  case (2 sc len element h n es swap s h1 h2)
  from 2 have cs: "s < len" "s = 2 * n + 1 \<or> s = 2 * n + 2"
    "\<exists>c. content_get h s = Some c \<and> sc c < sc element"
    using choose_swap_Some[of sc len "sc element" h n s] by auto
  show ?case
  proof (cases "n \<le> -1")
    case False
    with cs show ?thesis by auto
  next
    case True
    show ?thesis
    proof (cases "n = -1")
      case True
      show ?thesis
      proof (cases "s = -1")
        case True
        with 2(5) have "content_m1 h2 = Some element" by (auto dest: content_set_m1)
        moreover from cs(3) True have "\<exists>c. content_m1 h = Some c \<and> sc c < sc element"
          by (simp add: content_get_def)
        ultimately show ?thesis using True \<open>n = -1\<close> cs(1) by auto
      next
        case False
        with cs \<open>n = -1\<close> show ?thesis by auto
      qed
    next
      case False
      with True cs have "s < -1" by auto
      with cs(3) have False by (auto simp: content_get_def js_nth_def)
      then show ?thesis ..
    qed
  qed
qed

definition bubbleUp :: "('a \<Rightarrow> real) \<Rightarrow> 'a BinaryHeap \<Rightarrow> int \<Rightarrow> error + 'a BinaryHeap" where
  "bubbleUp scoreFunction h n =
     (let len = int (length (content h))
      in case content_get h n of
           None \<Rightarrow> Inl TypeError
         | Some element \<Rightarrow> bubbleUp_loop scoreFunction len element h n)"


text \<open>\<^verbatim>\<open>content.indexOf(node)\<close>: the first index holding the node, \<open>-1\<close> when there is none.\<close>

fun indexOf :: "'a list \<Rightarrow> 'a \<Rightarrow> int" where
  "indexOf [] v = -1"
| "indexOf (a # as) v =
     (if a = v then 0 else (let i = indexOf as v in if i = -1 then -1 else i + 1))"

text \<open>\<^verbatim>\<open>content.pop()\<close>: removes and returns the last element; \<^verbatim>\<open>undefined\<close> on an empty
  array, which stays empty.\<close>

definition array_pop :: "'a BinaryHeap \<Rightarrow> 'a option \<times> 'a BinaryHeap" where
  "array_pop h =
     (if content h = [] then (None, h)
      else (Some (last (content h)), h\<lparr>content := butlast (content h)\<rparr>))"

definition new_BinaryHeap :: "'a BinaryHeap" where
  "new_BinaryHeap = \<lparr>content = [], content_m1 = None\<rparr>"

definition push :: "('a \<Rightarrow> real) \<Rightarrow> 'a BinaryHeap \<Rightarrow> 'a \<Rightarrow> error + 'a BinaryHeap" where
  "push scoreFunction h e =
     (let h = h\<lparr>content := content h @ [e]\<rparr>
      in sinkDown scoreFunction h (int (length (content h)) - 1))"

definition pop :: "('a \<Rightarrow> real) \<Rightarrow> 'a BinaryHeap \<Rightarrow> error + ('a option \<times> 'a BinaryHeap)" where
  "pop scoreFunction h =
     (let result = content_get h 0;
          (end, h) = array_pop h
      in if length (content h) > 0 then
           bind_result (content_set h 0 end) (\<lambda>h.
           bind_result (bubbleUp scoreFunction h 0) (\<lambda>h.
             Inr (result, h)))
         else Inr (result, h))"

definition remove :: "('a \<Rightarrow> real) \<Rightarrow> 'a BinaryHeap \<Rightarrow> 'a \<Rightarrow> error + 'a BinaryHeap" where
  "remove scoreFunction h node =
     (let i = indexOf (content h) node;
          (end, h) = array_pop h
      in if i \<noteq> int (length (content h)) - 1 then
           bind_result (content_set h i end) (\<lambda>h.
           bind_result (score scoreFunction end) (\<lambda>endScore.
             if endScore < scoreFunction node
             then sinkDown scoreFunction h i
             else bubbleUp scoreFunction h i))
         else Inr h)"

definition size_heap :: "'a BinaryHeap \<Rightarrow> nat" where
  "size_heap h = length (content h)"

definition rescoreElement :: "('a \<Rightarrow> real) \<Rightarrow> 'a BinaryHeap \<Rightarrow> 'a \<Rightarrow> error + 'a BinaryHeap" where
  "rescoreElement scoreFunction h node = sinkDown scoreFunction h (indexOf (content h) node)"



text \<open>A call of one of the four methods that change the heap, and a sequence of calls
  (an exception ends the sequence).\<close>

datatype 'a heap_op = Push 'a | Pop | Remove 'a | RescoreElement 'a

fun apply_op :: "('a \<Rightarrow> real) \<Rightarrow> 'a BinaryHeap \<Rightarrow> 'a heap_op \<Rightarrow> error + 'a BinaryHeap" where
  "apply_op sc h (Push e) = push sc h e"
| "apply_op sc h Pop = bind_result (pop sc h) (\<lambda>(result, h). Inr h)"
| "apply_op sc h (Remove node) = remove sc h node"
| "apply_op sc h (RescoreElement node) = rescoreElement sc h node"

fun run_ops :: "('a \<Rightarrow> real) \<Rightarrow> 'a BinaryHeap \<Rightarrow> 'a heap_op list \<Rightarrow> error + 'a BinaryHeap" where
  "run_ops sc h [] = Inr h"
| "run_ops sc h (op # ops) = bind_result (apply_op sc h op) (\<lambda>h. run_ops sc h ops)"

text \<open>The score function of the heap of \<^verbatim>\<open>search\<close>, \<^verbatim>\<open>node => node.f\<close>, reads a field of the
  node at every comparison, and the caller assigns this field between the calls. An event
  is a call of a method or such an assignment, \<^verbatim>\<open>node.f = v\<close>; a sequence of events runs on
  the heap together with the scores as they currently are.\<close>

datatype 'a event = Call "'a heap_op" | SetScore 'a real

fun run_events ::
  "('a \<Rightarrow> real) \<Rightarrow> 'a BinaryHeap \<Rightarrow> 'a event list \<Rightarrow> error + ('a \<Rightarrow> real) \<times> 'a BinaryHeap" where
  "run_events sc h [] = Inr (sc, h)"
| "run_events sc h (Call op # es) = bind_result (apply_op sc h op) (\<lambda>h. run_events sc h es)"
| "run_events sc h (SetScore node v # es) = run_events (sc(node := v)) h es"

text \<open>The sequences of events in which the caller uses \<^verbatim>\<open>rescoreElement\<close> as \<^verbatim>\<open>search\<close> does:
  an assignment to the score of a node that is in the heap does not raise the score,
  the heap holds this node once, and the next event is the call \<^verbatim>\<open>rescoreElement(node)\<close>.
  The score of a node that is not in the heap may change in any way.\<close>

fun lowered_and_rescored :: "('a \<Rightarrow> real) \<Rightarrow> 'a BinaryHeap \<Rightarrow> 'a event list \<Rightarrow> bool" where
  "lowered_and_rescored sc h [] = True"
| "lowered_and_rescored sc h (Call op # es) =
     (case apply_op sc h op of Inl e \<Rightarrow> True | Inr h' \<Rightarrow> lowered_and_rescored sc h' es)"
| "lowered_and_rescored sc h (SetScore node v # es) =
     ((if node \<in> set (content h)
       then v \<le> sc node \<and> count_list (content h) node \<le> 1 \<and>
            (case es of Call (RescoreElement n) # es' \<Rightarrow> n = node | _ \<Rightarrow> False)
       else True) \<and>
      lowered_and_rescored (sc(node := v)) h es)"


section \<open>The heap on lists\<close>

text \<open>
  Two list functions that the methods \<^verbatim>\<open>sinkDown\<close> and \<^verbatim>\<open>bubbleUp\<close> are shown to compute
  for an index inside the array; they carry the proofs about the heap order. The heap
  order itself: the score at every position but the root is at least the score at its
  parent position \<open>((i + 1) >> 1) - 1\<close>.
\<close>

definition parent_index :: "nat \<Rightarrow> nat" where
  "parent_index n = (n + 1) div 2 - 1"

lemma parent_index_less: "0 < n \<Longrightarrow> parent_index n < n"
  by (simp add: parent_index_def)

function sink_list :: "('a \<Rightarrow> real) \<Rightarrow> 'a list \<Rightarrow> nat \<Rightarrow> 'a list" where
  "sink_list sc xs n =
     (if 0 < n \<and> n < length xs \<and> sc (xs ! n) < sc (xs ! parent_index n)
      then sink_list sc (xs[parent_index n := xs ! n, n := xs ! parent_index n]) (parent_index n)
      else xs)"
  by pat_completeness auto
termination
  apply (relation "measure (\<lambda>(sc, xs, n). n)")
  apply (simp_all add: parent_index_less)
  done

declare sink_list.simps [simp del]

definition bubble_swap :: "('a \<Rightarrow> real) \<Rightarrow> 'a list \<Rightarrow> 'a \<Rightarrow> nat \<Rightarrow> nat option" where
  "bubble_swap sc xs e n =
     (let c1 = 2 * n + 1; c2 = 2 * n + 2;
          s1 = (if c1 < length xs \<and> sc (xs ! c1) < sc e then Some c1 else None)
      in if c2 < length xs \<and> sc (xs ! c2) < (case s1 of None \<Rightarrow> sc e | Some _ \<Rightarrow> sc (xs ! c1))
         then Some c2 else s1)"

lemma bubble_swap_Some:
  "bubble_swap sc xs e n = Some s \<Longrightarrow> s < length xs \<and> n < s \<and> (s = 2 * n + 1 \<or> s = 2 * n + 2)"
  by (auto simp: bubble_swap_def Let_def split: if_splits option.splits)

function bubble_list :: "('a \<Rightarrow> real) \<Rightarrow> 'a list \<Rightarrow> nat \<Rightarrow> 'a list" where
  "bubble_list sc xs n =
     (case bubble_swap sc xs (xs ! n) n of
        Some s \<Rightarrow> bubble_list sc (xs[n := xs ! s, s := xs ! n]) s
      | None \<Rightarrow> xs)"
  by pat_completeness auto
termination
proof (relation "measure (\<lambda>(sc, xs, n). length xs - n)", goal_cases)
  case 1
  then show ?case by simp
next
  case (2 sc xs n s)
  then show ?case using bubble_swap_Some[of sc xs "xs ! n" n s] by auto
qed

declare bubble_list.simps [simp del]

lemma length_sink_list [simp]: "length (sink_list sc xs n) = length xs"
  by (induction sc xs n rule: sink_list.induct) (subst sink_list.simps, simp)

lemma length_bubble_list [simp]: "length (bubble_list sc xs n) = length xs"
  by (induction sc xs n rule: bubble_list.induct)
     (subst bubble_list.simps, simp split: option.splits)

lemma mset_sink_list [simp]: "mset (sink_list sc xs n) = mset xs"
proof (induction sc xs n rule: sink_list.induct)
  case (1 sc xs n)
  show ?case
  proof (cases "0 < n \<and> n < length xs \<and> sc (xs ! n) < sc (xs ! parent_index n)")
    case True
    then have p: "parent_index n < length xs" using parent_index_less[of n] by simp
    have "mset (sink_list sc xs n) =
          mset (sink_list sc (xs[parent_index n := xs ! n, n := xs ! parent_index n]) (parent_index n))"
      using True by (subst sink_list.simps) simp
    also have "\<dots> = mset (xs[parent_index n := xs ! n, n := xs ! parent_index n])"
      using True by (intro 1) simp
    also have "\<dots> = mset xs"
      using p True by (simp add: mset_swap)
    finally show ?thesis .
  next
    case False
    then show ?thesis by (subst sink_list.simps) auto
  qed
qed

lemma mset_bubble_list [simp]: "n < length xs \<Longrightarrow> mset (bubble_list sc xs n) = mset xs"
proof (induction sc xs n rule: bubble_list.induct)
  case (1 sc xs n)
  show ?case
  proof (cases "bubble_swap sc xs (xs ! n) n")
    case None
    then show ?thesis by (subst bubble_list.simps) simp
  next
    case (Some s)
    then have s: "s < length xs" by (auto dest: bubble_swap_Some)
    have "mset (xs[n := xs ! s, s := xs ! n]) = mset xs"
      using s "1.prems" by (metis mset_swap)
    with Some s 1 show ?thesis
      by (subst bubble_list.simps) simp
  qed
qed

subsection \<open>The methods compute the list functions\<close>

declare sinkDown_loop.simps [simp del] bubbleUp_loop.simps [simp del]

lemma content_get_nat [simp]:
  "content_get h (int n) = (if n < length (content h) then Some (content h ! n) else None)"
  by (simp add: content_get_def js_nth_def)

lemma content_get_0:
  "content_get h 0 = (if content h = [] then None else Some (content h ! 0))"
  by (simp add: content_get_def js_nth_def)

lemma content_set_nat [simp]:
  "n < length (content h) \<Longrightarrow>
   content_set h (int n) (Some e) = Inr (h\<lparr>content := (content h)[n := e]\<rparr>)"
  by (simp add: content_set_def)

lemma int_parent_index: "0 < n \<Longrightarrow> (int n + 1) div 2 - 1 = int (parent_index n)"
  by (simp add: parent_index_def)

lemma sinkDown_loop_list:
  "content h = xs \<Longrightarrow> n < length xs \<Longrightarrow>
   sinkDown_loop sc (Some (xs ! n)) h (int n) = Inr (h\<lparr>content := sink_list sc xs n\<rparr>)"
proof (induction sc xs n arbitrary: h rule: sink_list.induct)
  case (1 sc xs n)
  show ?case
  proof (cases "0 < n")
    case False
    then show ?thesis using 1
      by (subst sinkDown_loop.simps, subst sink_list.simps) simp
  next
    case True
    then have p: "parent_index n < n" by (rule parent_index_less)
    show ?thesis
    proof (cases "sc (xs ! n) < sc (xs ! parent_index n)")
      case False
      then show ?thesis using 1(2,3) True p
        by (subst sinkDown_loop.simps, subst sink_list.simps)
           (simp add: int_parent_index score_def Let_def)
    next
      case less: True
      let ?h' = "h\<lparr>content := xs[parent_index n := xs ! n, n := xs ! parent_index n]\<rparr>"
      have "sinkDown_loop sc (Some (xs ! n)) ?h' (int (parent_index n)) =
            Inr (?h'\<lparr>content := sink_list sc (xs[parent_index n := xs ! n, n := xs ! parent_index n]) (parent_index n)\<rparr>)"
        using "1.IH"[of ?h'] True less 1(3) p by simp
      then show ?thesis using 1(2,3) True p less
        by (subst sinkDown_loop.simps, subst sink_list.simps)
           (simp add: int_parent_index score_def Let_def)
    qed
  qed
qed

lemma sinkDown_list:
  "n < length (content h) \<Longrightarrow>
   sinkDown sc h (int n) = Inr (h\<lparr>content := sink_list sc (content h) n\<rparr>)"
  by (simp add: sinkDown_def sinkDown_loop_list)

lemma sinkDown_nonpositive: "n \<le> 0 \<Longrightarrow> sinkDown sc h n = Inr h"
  by (simp add: sinkDown_def sinkDown_loop.simps)

lemma choose_swap_list:
  "content h = xs \<Longrightarrow>
   choose_swap sc (int (length xs)) (sc e) h (int n) = Inr (map_option int (bubble_swap sc xs e n))"
proof -
  assume xs: "content h = xs"
  have c2: "(int n + 1) * 2 = int (2 * n + 2)" and c1: "int (2 * n + 2) - 1 = int (2 * n + 1)"
    by simp_all
  show ?thesis
    unfolding choose_swap_def bubble_swap_def Let_def c1 c2 content_get_nat of_nat_less_iff xs
    by (simp add: score_def less_js_def)
qed

lemma bubbleUp_loop_list:
  "content h = xs \<Longrightarrow> n < length xs \<Longrightarrow>
   bubbleUp_loop sc (int (length xs)) (xs ! n) h (int n) =
     Inr (h\<lparr>content := bubble_list sc xs n\<rparr>)"
proof (induction sc xs n arbitrary: h rule: bubble_list.induct)
  case (1 sc xs n)
  show ?case
  proof (cases "bubble_swap sc xs (xs ! n) n")
    case None
    then show ?thesis using 1(2,3)
      by (subst bubbleUp_loop.simps, subst bubble_list.simps)
         (simp add: choose_swap_list Let_def)
  next
    case (Some s)
    then have s: "s < length xs" "n < s" by (auto dest: bubble_swap_Some)
    let ?xs' = "xs[n := xs ! s, s := xs ! n]"
    let ?h' = "h\<lparr>content := ?xs'\<rparr>"
    have "bubbleUp_loop sc (int (length ?xs')) (?xs' ! s) ?h' (int s) =
          Inr (?h'\<lparr>content := bubble_list sc ?xs' s\<rparr>)"
      using "1.IH"[OF Some, of ?h'] s by simp
    then have "bubbleUp_loop sc (int (length xs)) (xs ! n) ?h' (int s) =
          Inr (h\<lparr>content := bubble_list sc ?xs' s\<rparr>)"
      using s by simp
    then show ?thesis using 1(2,3) Some s
      by (subst bubbleUp_loop.simps, subst bubble_list.simps)
         (simp add: choose_swap_list Let_def)
  qed
qed

lemma bubbleUp_list:
  "n < length (content h) \<Longrightarrow>
   bubbleUp sc h (int n) = Inr (h\<lparr>content := bubble_list sc (content h) n\<rparr>)"
  by (simp add: bubbleUp_def bubbleUp_loop_list)

lemma push_list:
  "push sc h e = Inr (h\<lparr>content := sink_list sc (content h @ [e]) (length (content h))\<rparr>)"
  using sinkDown_list[of "length (content h)" "h\<lparr>content := content h @ [e]\<rparr>" sc]
  by (simp add: push_def Let_def)

lemma pop_list:
  "pop sc h =
     Inr (if content h = [] then (None, h)
          else (Some (content h ! 0),
                h\<lparr>content := (if butlast (content h) = [] then []
                               else bubble_list sc ((butlast (content h))[0 := last (content h)]) 0)\<rparr>))"
proof (cases "content h = []")
  case True
  then show ?thesis by (simp add: pop_def array_pop_def Let_def content_get_def js_nth_def)
next
  case False
  show ?thesis
  proof (cases "butlast (content h) = []")
    case True
    with False show ?thesis
      by (simp add: pop_def array_pop_def Let_def content_get_0)
  next
    case nonempty: False
    let ?h1 = "h\<lparr>content := butlast (content h)\<rparr>"
    let ?h2 = "h\<lparr>content := (butlast (content h))[0 := last (content h)]\<rparr>"
    from nonempty have "length (butlast (content h)) \<noteq> 0" by (simp del: length_butlast)
    then have len: "Suc 0 < length (content h)" by simp
    have 1: "content_set ?h1 0 (Some (last (content h))) = Inr ?h2"
      using len by (simp add: content_set_def)
    have 2: "bubbleUp sc ?h2 0 = Inr (?h2\<lparr>content := bubble_list sc (content ?h2) 0\<rparr>)"
      using len bubbleUp_list[of 0 ?h2 sc] by simp
    show ?thesis using False nonempty 1 2
      by (simp add: pop_def array_pop_def Let_def content_get_0)
  qed
qed

lemma indexOf_range: "- 1 \<le> indexOf xs v \<and> indexOf xs v < int (length xs)"
  by (induction xs) (auto simp: Let_def)

lemma indexOf_absent: "indexOf xs v = - 1 \<longleftrightarrow> v \<notin> set xs"
proof (induction xs)
  case Nil
  then show ?case by simp
next
  case (Cons a xs)
  then show ?case using indexOf_range[of xs v] by (auto simp: Let_def)
qed

lemma indexOf_present:
  "v \<in> set xs \<Longrightarrow> 0 \<le> indexOf xs v \<and> nat (indexOf xs v) < length xs \<and>
     xs ! nat (indexOf xs v) = v \<and> (\<forall>j < nat (indexOf xs v). xs ! j \<noteq> v)"
proof (induction xs)
  case Nil
  then show ?case by simp
next
  case (Cons a xs)
  show ?case
  proof (cases "a = v")
    case True
    then show ?thesis by simp
  next
    case False
    with Cons.prems have v: "v \<in> set xs" by simp
    from Cons.IH[OF v] have ih: "0 \<le> indexOf xs v" "nat (indexOf xs v) < length xs"
      "xs ! nat (indexOf xs v) = v" "\<forall>j < nat (indexOf xs v). xs ! j \<noteq> v" by auto
    have eq: "indexOf (a # xs) v = indexOf xs v + 1"
      using False ih(1) by (simp add: Let_def)
    have n: "nat (indexOf xs v + 1) = Suc (nat (indexOf xs v))" using ih(1) by simp
    show ?thesis unfolding eq n using ih False
      by (auto simp: nth_Cons split: nat.splits)
  qed
qed

lemma rescoreElement_list:
  "rescoreElement sc h node =
     Inr (if node \<in> set (content h)
          then h\<lparr>content := sink_list sc (content h) (nat (indexOf (content h) node))\<rparr>
          else h)"
proof (cases "node \<in> set (content h)")
  case True
  from indexOf_present[OF True]
  have "indexOf (content h) node = int (nat (indexOf (content h) node))"
    "nat (indexOf (content h) node) < length (content h)" by auto
  then show ?thesis using True sinkDown_list[of "nat (indexOf (content h) node)" h sc]
    by (simp add: rescoreElement_def)
next
  case False
  then show ?thesis
    by (simp add: rescoreElement_def indexOf_absent[THEN iffD2] sinkDown_nonpositive)
qed


definition heap_inv :: "('a \<Rightarrow> real) \<Rightarrow> 'a list \<Rightarrow> bool" where
  "heap_inv sc xs = (\<forall>i. 0 < i \<and> i < length xs \<longrightarrow> sc (xs ! parent_index i) \<le> sc (xs ! i))"

definition heap_except_up :: "('a \<Rightarrow> real) \<Rightarrow> 'a list \<Rightarrow> nat \<Rightarrow> bool" where
  "heap_except_up sc xs n =
     ((\<forall>i. 0 < i \<and> i < length xs \<and> i \<noteq> n \<longrightarrow> sc (xs ! parent_index i) \<le> sc (xs ! i)) \<and>
      (\<forall>i. 0 < i \<and> i < length xs \<and> parent_index i = n \<and> 0 < n \<longrightarrow>
             sc (xs ! parent_index n) \<le> sc (xs ! i)))"

definition heap_except_down :: "('a \<Rightarrow> real) \<Rightarrow> 'a list \<Rightarrow> nat \<Rightarrow> bool" where
  "heap_except_down sc xs n =
     ((\<forall>i. 0 < i \<and> i < length xs \<and> parent_index i \<noteq> n \<longrightarrow>
             sc (xs ! parent_index i) \<le> sc (xs ! i)) \<and>
      (\<forall>i. 0 < i \<and> i < length xs \<and> parent_index i = n \<and> 0 < n \<longrightarrow>
             sc (xs ! parent_index n) \<le> sc (xs ! i)))"


section \<open>Graph: dirty list and neighbours\<close>

lemma nodeState_foldl_cleanNode:
  "nodeState (foldl cleanNode g ns) n =
     (if n \<in> set ns then clean_state else nodeState g n)"
  by (induction ns arbitrary: g) (auto simp: cleanNode_def)

lemma foldl_cleanNode_eq:
  "foldl cleanNode g ns =
     g\<lparr>nodeState := (\<lambda>n. if n \<in> set ns then clean_state else nodeState g n)\<rparr>"
proof (induction ns arbitrary: g)
  case Nil
  then show ?case by simp
next
  case (Cons a ns)
  have step: "cleanNode g a = g\<lparr>nodeState := (nodeState g)(a := clean_state)\<rparr>"
    by (simp add: cleanNode_def)
  have "foldl cleanNode g (a # ns) = foldl cleanNode (cleanNode g a) ns" by simp
  also have "\<dots> = (cleanNode g a)\<lparr>nodeState :=
         (\<lambda>n. if n \<in> set ns then clean_state else nodeState (cleanNode g a) n)\<rparr>"
    by (rule Cons.IH)
  also have "\<dots> = g\<lparr>nodeState := (\<lambda>n. if n \<in> set (a # ns) then clean_state else nodeState g n)\<rparr>"
    unfolding step by (auto intro!: arg_cong[where f="\<lambda>f. g\<lparr>nodeState := f\<rparr>"])
  finally show ?case .
qed

lemma new_Graph_simps [simp]:
  "dirtyNodes (new_Graph gridIn diag) = []"
  "nodeState (new_Graph gridIn diag) n = clean_state"
  "diagonal (new_Graph gridIn diag) = diag"
  "grid (new_Graph gridIn diag) = map (\<lambda>i. make_row i (gridIn ! i)) [0 ..< length gridIn]"
  by (simp_all add: new_Graph_def init_def foldl_cleanNode_eq Let_def)

lemma dirtyNodes_foldl_markDirty:
  "dirtyNodes (foldl markDirty g ns) = dirtyNodes g @ ns"
  by (induction ns arbitrary: g) (auto simp: markDirty_def)

text \<open>
  Claim C6. For every graph and every sequence of \<^verbatim>\<open>markDirty\<close> calls (duplicates
  allowed), after \<^verbatim>\<open>cleanDirty\<close> every node that was in the dirty list has its
  transient fields at baseline and the dirty list is empty.
\<close>

theorem cleanDirty_resets_dirty:
  fixes g :: Graph and marked :: "GridNode list"
  defines "g' \<equiv> foldl markDirty g marked"
  shows "dirtyNodes (cleanDirty g') = [] \<and>
         (\<forall>n \<in> set (dirtyNodes g').
            nodeState (cleanDirty g') n =
              \<lparr>node_f = 0, node_g = 0, node_h = 0, visited = False, closed = False,
               parent = None\<rparr>)"
  by (simp add: cleanDirty_def nodeState_foldl_cleanNode clean_state_def)


theorem cleanDirty_resets_dirty_witness:
  "(let n = \<lparr>node_x = 0, node_y = 1, node_w = 1\<rparr>;
        g = new_Graph [[1, 1], [1, 1]] False;
        g = g\<lparr>nodeState := (nodeState g)(n := \<lparr>node_f = 3, node_g = 1, node_h = 2,
                 visited = True, closed = True, parent = Some \<lparr>node_x = 0, node_y = 0, node_w = 1\<rparr>\<rparr>)\<rparr>;
        g' = foldl markDirty g [n, n]
    in dirtyNodes g' = [n, n] \<and> node_f (nodeState g' n) = 3 \<and>
       dirtyNodes (cleanDirty g') = [] \<and>
       nodeState (cleanDirty g') n =
         \<lparr>node_f = 0, node_g = 0, node_h = 0, visited = False, closed = False,
          parent = None\<rparr>)"
  using cleanDirty_resets_dirty[of
      "(new_Graph [[1, 1], [1, 1]] False)\<lparr>nodeState :=
          (nodeState (new_Graph [[1, 1], [1, 1]] False))(\<lparr>node_x = 0, node_y = 1, node_w = 1\<rparr> :=
             \<lparr>node_f = 3, node_g = 1, node_h = 2, visited = True, closed = True,
              parent = Some \<lparr>node_x = 0, node_y = 0, node_w = 1\<rparr>\<rparr>)\<rparr>"
      "[\<lparr>node_x = 0, node_y = 1, node_w = 1\<rparr>, \<lparr>node_x = 0, node_y = 1, node_w = 1\<rparr>]"]
  by (simp add: Let_def markDirty_def new_Graph_def init_def make_row_def cleanNode_def
      cleanDirty_def clean_state_def)

lemma push_cell_grid_at:
  "push_cell ret (grid_at gr i j) =
     ret @ map (\<lambda>p. gr ! nat (fst p) ! nat (snd p)) (filter (in_bounds gr) [(i, j)])"
  by (auto simp: push_cell_def grid_at_def js_nth_def in_bounds_def split: option.splits)

lemma neighbors_eq_spec: "neighbors g node = neighbors_spec g node"
  unfolding neighbors_def neighbors_spec_def Let_def push_cell_grid_at
  by simp

text \<open>
  Claim C7. For every node of a graph, \<^verbatim>\<open>neighbors(node)\<close> returns exactly the adjacent
  nodes that are inside the grid, in the fixed order Left, Right, Down (\<open>y - 1\<close>), Up
  (\<open>y + 1\<close>) and, when diagonal movement is enabled, Down-Left, Down-Right, Up-Left,
  Up-Right; positions outside the grid are left out without an error.
\<close>

theorem neighbors_in_fixed_order: "neighbors g node = neighbors_spec g node"
  by (rule neighbors_eq_spec)


section \<open>Heap order\<close>

lemma parent_index_child: "0 < i \<Longrightarrow> parent_index i = n \<longleftrightarrow> i = 2 * n + 1 \<or> i = 2 * n + 2"
  by (auto simp: parent_index_def)

lemma heap_except_up_step:
  assumes inv: "heap_except_up sc xs n" and n: "0 < n" "n < length xs"
    and less: "sc (xs ! n) < sc (xs ! parent_index n)"
  shows "heap_except_up sc (xs[parent_index n := xs ! n, n := xs ! parent_index n]) (parent_index n)"
proof -
  let ?p = "parent_index n"
  let ?ys = "xs[?p := xs ! n, n := xs ! ?p]"
  have p: "?p < n" using n by (simp add: parent_index_less)
  have ys: "\<And>j. j < length xs \<Longrightarrow> ?ys ! j = (if j = n then xs ! ?p else if j = ?p then xs ! n else xs ! j)"
    using n p by (simp add: nth_list_update)
  have a: "\<And>i. 0 < i \<Longrightarrow> i < length xs \<Longrightarrow> i \<noteq> n \<Longrightarrow> sc (xs ! parent_index i) \<le> sc (xs ! i)"
    and b: "\<And>i. 0 < i \<Longrightarrow> i < length xs \<Longrightarrow> parent_index i = n \<Longrightarrow> sc (xs ! ?p) \<le> sc (xs ! i)"
    using inv n by (auto simp: heap_except_up_def)
  have pl: "\<And>i. 0 < i \<Longrightarrow> i < length xs \<Longrightarrow> parent_index i < length xs"
    using parent_index_less by (meson less_trans)
  show ?thesis
    unfolding heap_except_up_def
  proof (intro conjI allI impI)
    fix i assume i: "0 < i \<and> i < length ?ys \<and> i \<noteq> ?p"
    then have il: "i < length xs" "0 < i" "i \<noteq> ?p" by auto
    show "sc (?ys ! parent_index i) \<le> sc (?ys ! i)"
    proof (cases "i = n")
      case True
      then show ?thesis using less n p by (simp add: ys)
    next
      case False
      consider "parent_index i = n" | "parent_index i = ?p" | "parent_index i \<noteq> n" "parent_index i \<noteq> ?p"
        by blast
      then show ?thesis
      proof cases
        case 1
        then show ?thesis using b[of i] il False n by (simp add: ys)
      next
        case 2
        then show ?thesis using a[of i] il False less n p by (simp add: ys)
      next
        case 3
        then show ?thesis using a[of i] il False pl[of i] by (simp add: ys)
      qed
    qed
  next
    fix i assume i: "0 < i \<and> i < length ?ys \<and> parent_index i = ?p \<and> 0 < ?p"
    then have il: "i < length xs" "0 < i" "parent_index i = ?p" "0 < ?p" by auto
    have pp: "parent_index ?p < ?p" using il by (simp add: parent_index_less)
    have ppy: "?ys ! parent_index ?p = xs ! parent_index ?p"
      using pp p n by (simp add: ys)
    have ip: "i \<noteq> ?p" using il parent_index_less[of i] by auto
    have gp: "sc (xs ! parent_index ?p) \<le> sc (xs ! ?p)"
      using a[of ?p] il p n by simp
    show "sc (?ys ! parent_index ?p) \<le> sc (?ys ! i)"
    proof (cases "i = n")
      case True
      then show ?thesis using gp n by (simp add: ys ppy)
    next
      case False
      then have "sc (xs ! ?p) \<le> sc (xs ! i)" using a[of i] il by simp
      then show ?thesis using gp False ip il by (simp add: ys ppy)
    qed
  qed
qed

lemma heap_except_up_done:
  assumes "heap_except_up sc xs n" "n < length xs"
    and "n = 0 \<or> \<not> sc (xs ! n) < sc (xs ! parent_index n)"
  shows "heap_inv sc xs"
  unfolding heap_inv_def
proof (intro allI impI)
  fix i assume "0 < i \<and> i < length xs"
  then show "sc (xs ! parent_index i) \<le> sc (xs ! i)"
    using assms by (cases "i = n") (auto simp: heap_except_up_def)
qed

lemma sink_list_heap:
  "heap_except_up sc xs n \<Longrightarrow> n < length xs \<Longrightarrow> heap_inv sc (sink_list sc xs n)"
proof (induction sc xs n rule: sink_list.induct)
  case (1 sc xs n)
  show ?case
  proof (cases "0 < n \<and> n < length xs \<and> sc (xs ! n) < sc (xs ! parent_index n)")
    case True
    then have "heap_except_up sc (xs[parent_index n := xs ! n, n := xs ! parent_index n]) (parent_index n)"
      using "1.prems" by (intro heap_except_up_step) auto
    moreover have "parent_index n < length (xs[parent_index n := xs ! n, n := xs ! parent_index n])"
      using True parent_index_less[of n] by simp
    ultimately have "heap_inv sc (sink_list sc (xs[parent_index n := xs ! n, n := xs ! parent_index n]) (parent_index n))"
      using True by (intro "1.IH") auto
    then show ?thesis using True by (subst sink_list.simps) simp
  next
    case False
    then have "heap_inv sc xs" using "1.prems" by (intro heap_except_up_done[of sc xs n]) auto
    then show ?thesis using False by (subst sink_list.simps) auto
  qed
qed

lemma bubble_swap_Some_children:
  assumes "bubble_swap sc xs e n = Some s"
  shows "s < length xs \<and> (s = 2 * n + 1 \<or> s = 2 * n + 2) \<and> sc (xs ! s) < sc e \<and>
         (2 * n + 1 < length xs \<longrightarrow> sc (xs ! s) \<le> sc (xs ! (2 * n + 1))) \<and>
         (2 * n + 2 < length xs \<longrightarrow> sc (xs ! s) \<le> sc (xs ! (2 * n + 2)))"
  using assms
  by (auto simp: bubble_swap_def Let_def split: if_splits option.splits)

lemma bubble_swap_None_children:
  assumes "bubble_swap sc xs e n = None"
  shows "(2 * n + 1 < length xs \<longrightarrow> sc e \<le> sc (xs ! (2 * n + 1))) \<and>
         (2 * n + 2 < length xs \<longrightarrow> sc e \<le> sc (xs ! (2 * n + 2)))"
  using assms
  by (auto simp: bubble_swap_def Let_def split: if_splits option.splits)

lemma bubble_swap_Some_min:
  assumes "bubble_swap sc xs e n = Some s"
  shows "s < length xs \<and> 0 < s \<and> n < s \<and> parent_index s = n \<and> sc (xs ! s) < sc e \<and>
         (\<forall>t. 0 < t \<and> t < length xs \<and> parent_index t = n \<longrightarrow> sc (xs ! s) \<le> sc (xs ! t))"
proof -
  note c = bubble_swap_Some_children[OF assms]
  have "\<And>t. 0 < t \<Longrightarrow> t < length xs \<Longrightarrow> parent_index t = n \<Longrightarrow> sc (xs ! s) \<le> sc (xs ! t)"
  proof -
    fix t assume t: "0 < t" "t < length xs" "parent_index t = n"
    then have "t = 2 * n + 1 \<or> t = 2 * n + 2" by (simp add: parent_index_child)
    then show "sc (xs ! s) \<le> sc (xs ! t)" using c t(2) by auto
  qed
  moreover have "parent_index s = n" "0 < s" "n < s"
    using c by (auto simp: parent_index_def)
  ultimately show ?thesis using c by blast
qed

lemma bubble_swap_None_min:
  assumes "bubble_swap sc xs e n = None"
  shows "\<forall>t. 0 < t \<and> t < length xs \<and> parent_index t = n \<longrightarrow> sc e \<le> sc (xs ! t)"
proof (intro allI impI)
  fix t assume t: "0 < t \<and> t < length xs \<and> parent_index t = n"
  then have "t = 2 * n + 1 \<or> t = 2 * n + 2" using parent_index_child[of t n] by simp
  then show "sc e \<le> sc (xs ! t)" using bubble_swap_None_children[OF assms] t by auto
qed

lemma heap_except_down_step:
  assumes inv: "heap_except_down sc xs n" and n: "n < length xs"
    and swap: "bubble_swap sc xs (xs ! n) n = Some s"
  shows "heap_except_down sc (xs[n := xs ! s, s := xs ! n]) s"
proof -
  let ?ys = "xs[n := xs ! s, s := xs ! n]"
  from bubble_swap_Some_min[OF swap]
  have s: "s < length xs" "0 < s" "n < s" "parent_index s = n" "sc (xs ! s) < sc (xs ! n)"
    and smin: "\<And>t. 0 < t \<Longrightarrow> t < length xs \<Longrightarrow> parent_index t = n \<Longrightarrow> sc (xs ! s) \<le> sc (xs ! t)"
    by auto
  have ys: "\<And>j. j < length xs \<Longrightarrow> ?ys ! j = (if j = s then xs ! n else if j = n then xs ! s else xs ! j)"
    using n s by (simp add: nth_list_update)
  have a: "\<And>i. 0 < i \<Longrightarrow> i < length xs \<Longrightarrow> parent_index i \<noteq> n \<Longrightarrow> sc (xs ! parent_index i) \<le> sc (xs ! i)"
    and b: "\<And>i. 0 < i \<Longrightarrow> i < length xs \<Longrightarrow> parent_index i = n \<Longrightarrow> 0 < n \<Longrightarrow> sc (xs ! parent_index n) \<le> sc (xs ! i)"
    using inv by (auto simp: heap_except_down_def)
  have pl: "\<And>i. 0 < i \<Longrightarrow> i < length xs \<Longrightarrow> parent_index i < length xs"
    using parent_index_less by (meson less_trans)
  show ?thesis
    unfolding heap_except_down_def
  proof (intro conjI allI impI)
    fix i assume i: "0 < i \<and> i < length ?ys \<and> parent_index i \<noteq> s"
    then have il: "i < length xs" "0 < i" "parent_index i \<noteq> s" by auto
    have pi: "parent_index i < i" using il by (simp add: parent_index_less)
    show "sc (?ys ! parent_index i) \<le> sc (?ys ! i)"
    proof (cases "parent_index i = n")
      case True
      then have "i \<noteq> n" using pi by auto
      then show ?thesis using True smin[of i] il s n
        by (cases "i = s") (simp_all add: ys)
    next
      case False
      show ?thesis
      proof (cases "i = n")
        case True
        then have "sc (xs ! parent_index n) \<le> sc (xs ! s)" using b[of s] s il by simp
        then show ?thesis using True False il pl[of i] s by (simp add: ys)
      next
        case neq: False
        have "i \<noteq> s" using False s by auto
        then show ?thesis using a[of i] il False neq pl[of i] by (simp add: ys)
      qed
    qed
  next
    fix i assume i: "0 < i \<and> i < length ?ys \<and> parent_index i = s \<and> 0 < s"
    then have il: "i < length xs" "0 < i" "parent_index i = s" by auto
    have "s < i" using il parent_index_less[of i] by auto
    then have "i \<noteq> s" "i \<noteq> n" using s by auto
    moreover have "sc (xs ! s) \<le> sc (xs ! i)" using a[of i] il s by auto
    ultimately show "sc (?ys ! parent_index s) \<le> sc (?ys ! i)"
      using s n il by (simp add: ys)
  qed
qed

lemma heap_except_down_done:
  assumes "heap_except_down sc xs n" "n < length xs" "bubble_swap sc xs (xs ! n) n = None"
  shows "heap_inv sc xs"
  unfolding heap_inv_def
proof (intro allI impI)
  fix i assume "0 < i \<and> i < length xs"
  then show "sc (xs ! parent_index i) \<le> sc (xs ! i)"
    using assms(1) bubble_swap_None_min[OF assms(3)]
    by (cases "parent_index i = n") (auto simp: heap_except_down_def)
qed

lemma bubble_list_heap:
  "heap_except_down sc xs n \<Longrightarrow> n < length xs \<Longrightarrow> heap_inv sc (bubble_list sc xs n)"
proof (induction sc xs n rule: bubble_list.induct)
  case (1 sc xs n)
  show ?case
  proof (cases "bubble_swap sc xs (xs ! n) n")
    case None
    then have "heap_inv sc xs" using "1.prems" by (intro heap_except_down_done[of sc xs n]) auto
    then show ?thesis using None by (subst bubble_list.simps) simp
  next
    case (Some s)
    then have "heap_except_down sc (xs[n := xs ! s, s := xs ! n]) s"
      using "1.prems" by (intro heap_except_down_step) auto
    moreover have "s < length (xs[n := xs ! s, s := xs ! n])"
      using bubble_swap_Some[OF Some] by simp
    ultimately have "heap_inv sc (bubble_list sc (xs[n := xs ! s, s := xs ! n]) s)"
      using Some by (intro "1.IH") auto
    then show ?thesis using Some by (subst bubble_list.simps) simp
  qed
qed

lemma heap_inv_butlast: "heap_inv sc xs \<Longrightarrow> heap_inv sc (butlast xs)"
  unfolding heap_inv_def
proof (intro allI impI)
  fix i assume h: "\<forall>i. 0 < i \<and> i < length xs \<longrightarrow> sc (xs ! parent_index i) \<le> sc (xs ! i)"
    and i: "0 < i \<and> i < length (butlast xs)"
  then have "parent_index i < length (butlast xs)"
    using parent_index_less[of i] by linarith
  moreover have "sc (xs ! parent_index i) \<le> sc (xs ! i)" using h i by auto
  ultimately show "sc (butlast xs ! parent_index i) \<le> sc (butlast xs ! i)"
    using i by (simp add: nth_butlast)
qed

lemma heap_inv_push: "heap_inv sc xs \<Longrightarrow> heap_except_up sc (xs @ [e]) (length xs)"
  unfolding heap_inv_def heap_except_up_def
proof (intro conjI allI impI)
  fix i assume h: "\<forall>i. 0 < i \<and> i < length xs \<longrightarrow> sc (xs ! parent_index i) \<le> sc (xs ! i)"
    and i: "0 < i \<and> i < length (xs @ [e]) \<and> i \<noteq> length xs"
  then have "i < length xs" "parent_index i < length xs"
    using parent_index_less[of i] by auto
  with h i show "sc ((xs @ [e]) ! parent_index i) \<le> sc ((xs @ [e]) ! i)"
    by (simp add: nth_append)
next
  fix i assume "0 < i \<and> i < length (xs @ [e]) \<and> parent_index i = length xs \<and> 0 < length xs"
  then have False using parent_index_less[of i] by auto
  then show "sc ((xs @ [e]) ! parent_index (length xs)) \<le> sc ((xs @ [e]) ! i)" ..
qed

lemma heap_inv_replace_up:
  assumes "heap_inv sc xs" "i < length xs" "sc e \<le> sc (xs ! i)"
  shows "heap_except_up sc (xs[i := e]) i"
  unfolding heap_except_up_def
proof (intro conjI allI impI)
  fix j assume j: "0 < j \<and> j < length (xs[i := e]) \<and> j \<noteq> i"
  then have pj: "parent_index j < length xs" using parent_index_less[of j] by auto
  have "sc (xs ! parent_index j) \<le> sc (xs ! j)" using assms(1) j by (simp add: heap_inv_def)
  then show "sc (xs[i := e] ! parent_index j) \<le> sc (xs[i := e] ! j)"
    using j pj assms(2,3) by (auto simp: nth_list_update)
next
  fix j assume j: "0 < j \<and> j < length (xs[i := e]) \<and> parent_index j = i \<and> 0 < i"
  then have ji: "j \<noteq> i" "parent_index i < i" using parent_index_less[of j] parent_index_less[of i] by auto
  have "sc (xs ! parent_index i) \<le> sc (xs ! i)" "sc (xs ! i) \<le> sc (xs ! j)"
    using assms(1,2) j by (auto simp: heap_inv_def)
  then show "sc (xs[i := e] ! parent_index i) \<le> sc (xs[i := e] ! j)"
    using j ji assms(2) by (simp add: nth_list_update)
qed

lemma heap_inv_replace_down:
  assumes "heap_inv sc xs" "i < length xs" "sc (xs ! i) \<le> sc e"
  shows "heap_except_down sc (xs[i := e]) i"
  unfolding heap_except_down_def
proof (intro conjI allI impI)
  fix j assume j: "0 < j \<and> j < length (xs[i := e]) \<and> parent_index j \<noteq> i"
  then have pj: "parent_index j < length xs" using parent_index_less[of j] by auto
  have "sc (xs ! parent_index j) \<le> sc (xs ! j)" using assms(1) j by (simp add: heap_inv_def)
  then show "sc (xs[i := e] ! parent_index j) \<le> sc (xs[i := e] ! j)"
    using j pj assms(2,3) by (auto simp: nth_list_update)
next
  fix j assume j: "0 < j \<and> j < length (xs[i := e]) \<and> parent_index j = i \<and> 0 < i"
  then have ji: "j \<noteq> i" "parent_index i < i" using parent_index_less[of j] parent_index_less[of i] by auto
  have "sc (xs ! parent_index i) \<le> sc (xs ! i)" "sc (xs ! i) \<le> sc (xs ! j)"
    using assms(1,2) j by (auto simp: heap_inv_def)
  then show "sc (xs[i := e] ! parent_index i) \<le> sc (xs[i := e] ! j)"
    using j ji assms(2) by (simp add: nth_list_update)
qed

subsection \<open>\<^verbatim>\<open>remove\<close>: the cases\<close>

lemma bubble_list_last: "Suc n = length xs \<Longrightarrow> bubble_list sc xs n = xs"
  by (subst bubble_list.simps) (simp add: bubble_swap_def Let_def)

lemma bubbleUp_minus1:
  assumes m1: "content_m1 h = Some e" and ne: "content h \<noteq> []"
  shows "bubbleUp sc h (- 1) =
           Inr (if sc (content h ! 0) < sc e
                then h\<lparr>content := bubble_list sc ((content h)[0 := e]) 0,
                       content_m1 := Some (content h ! 0)\<rparr>
                else h)"
proof -
  let ?xs = "content h"
  have len: "0 < length ?xs" using ne by simp
  have cs: "choose_swap sc (int (length ?xs)) (sc e) h (- 1) =
              Inr (if sc (?xs ! 0) < sc e then Some 0 else None)"
    using m1 len by (simp add: choose_swap_def Let_def content_get_def js_nth_def score_def less_js_def)
  show ?thesis
  proof (cases "sc (?xs ! 0) < sc e")
    case False
    then show ?thesis using m1 cs
      by (simp add: bubbleUp_def Let_def content_get_def bubbleUp_loop.simps[of sc _ e h "- 1"])
  next
    case True
    let ?h1 = "h\<lparr>content_m1 := Some (?xs ! 0)\<rparr>"
    let ?h2 = "?h1\<lparr>content := ?xs[0 := e]\<rparr>"
    have 1: "content_set h (- 1) (content_get h 0) = Inr ?h1"
      using len by (simp add: content_set_def content_get_0)
    have 2: "content_set ?h1 0 (Some e) = Inr ?h2"
      using len by (simp add: content_set_def)
    have 3: "bubbleUp_loop sc (int (length ?xs)) e ?h2 0 = Inr (?h2\<lparr>content := bubble_list sc (?xs[0 := e]) 0\<rparr>)"
      using bubbleUp_loop_list[of ?h2 "?xs[0 := e]" 0 sc] len by simp
    show ?thesis using True m1 cs 1 2 3
      by (simp add: bubbleUp_def Let_def content_get_def bubbleUp_loop.simps[of sc _ e h "- 1"])
  qed
qed

lemma remove_list:
  fixes h :: "'a BinaryHeap" and node :: 'a
  defines "xs \<equiv> content h"
  defines "ys \<equiv> butlast (content h)"
  defines "e \<equiv> last (content h)"
  defines "i \<equiv> indexOf (content h) node"
  shows "remove sc h node =
     Inr (if xs = [] then h
          else if i = int (length ys) - 1 then h\<lparr>content := ys\<rparr>
          else if i = - 1 then
            (if \<not> sc e < sc node \<and> sc (ys ! 0) < sc e
             then h\<lparr>content := bubble_list sc (ys[0 := e]) 0, content_m1 := Some (ys ! 0)\<rparr>
             else h\<lparr>content := ys, content_m1 := Some e\<rparr>)
          else if i = int (length ys) then h
          else if sc e < sc node
            then h\<lparr>content := sink_list sc (ys[nat i := e]) (nat i)\<rparr>
            else h\<lparr>content := bubble_list sc (ys[nat i := e]) (nat i)\<rparr>)"
proof (cases "xs = []")
  case True
  then show ?thesis
    by (simp add: remove_def array_pop_def Let_def xs_def i_def)
next
  case ne: False
  have pop: "array_pop h = (Some e, h\<lparr>content := ys\<rparr>)"
    using ne by (simp add: array_pop_def xs_def ys_def e_def)
  have range: "- 1 \<le> i" "i < int (length xs)"
    using indexOf_range[of "content h" node] by (simp_all add: i_def xs_def)
  have lenys: "int (length ys) = int (length xs) - 1"
    using ne by (cases "content h" rule: rev_cases) (simp_all add: ys_def xs_def)
  show ?thesis
  proof (cases "i = int (length ys) - 1")
    case True
    then show ?thesis using ne pop
      by (simp add: remove_def Let_def i_def[symmetric])
  next
    case notsl: False
    show ?thesis
    proof (cases "i = - 1")
      case True
      with notsl have ysne: "ys \<noteq> []" by auto
      let ?h2 = "h\<lparr>content := ys, content_m1 := Some e\<rparr>"
      have set: "content_set (h\<lparr>content := ys\<rparr>) (- 1) (Some e) = Inr ?h2"
        by (simp add: content_set_def)
      have bub: "bubbleUp sc ?h2 (- 1) =
           Inr (if sc (ys ! 0) < sc e
                then ?h2\<lparr>content := bubble_list sc (ys[0 := e]) 0, content_m1 := Some (ys ! 0)\<rparr>
                else ?h2)"
        using bubbleUp_minus1[of ?h2 e sc] ysne by simp
      show ?thesis using ne notsl True pop set bub
        by (simp add: remove_def Let_def i_def[symmetric] score_def sinkDown_nonpositive)
    next
      case notabsent: False
      with range have i0: "0 \<le> i" by simp
      show ?thesis
      proof (cases "i = int (length ys)")
        case True
        have node: "node \<in> set (content h)"
          using notabsent indexOf_absent[of "content h" node] by (auto simp: i_def)
        have "xs ! nat i = node" using indexOf_present[OF node] by (simp add: i_def xs_def)
        moreover have "nat i = length xs - 1" using True lenys by simp
        ultimately have en: "e = node" using ne by (simp add: e_def xs_def last_conv_nth)
        have app: "ys @ [e] = xs" using ne by (simp add: ys_def e_def xs_def)
        let ?h2 = "h\<lparr>content := ys @ [e]\<rparr>"
        have set: "content_set (h\<lparr>content := ys\<rparr>) (int (length ys)) (Some e) = Inr ?h2"
          by (simp add: content_set_def)
        have bub: "bubbleUp sc ?h2 (int (length ys)) = Inr (?h2\<lparr>content := bubble_list sc (ys @ [e]) (length ys)\<rparr>)"
          using bubbleUp_list[of "length ys" ?h2 sc] by simp
        have "bubble_list sc (ys @ [e]) (length ys) = ys @ [e]"
          by (rule bubble_list_last) simp
        then show ?thesis using ne notsl notabsent True pop set bub en app
          by (simp add: remove_def Let_def i_def[symmetric] score_def xs_def)
      next
        case False
        with notsl range lenys i0 have il: "nat i < length ys" "i = int (nat i)" by auto
        let ?h2 = "h\<lparr>content := ys[nat i := e]\<rparr>"
        have set: "content_set (h\<lparr>content := ys\<rparr>) i (Some e) = Inr ?h2"
          using il content_set_nat[of "nat i" "h\<lparr>content := ys\<rparr>" e] by simp
        have sink: "sinkDown sc ?h2 i = Inr (?h2\<lparr>content := sink_list sc (ys[nat i := e]) (nat i)\<rparr>)"
          using sinkDown_list[of "nat i" ?h2 sc] il by simp
        have bub: "bubbleUp sc ?h2 i = Inr (?h2\<lparr>content := bubble_list sc (ys[nat i := e]) (nat i)\<rparr>)"
          using bubbleUp_list[of "nat i" ?h2 sc] il by simp
        show ?thesis using ne notsl notabsent False pop set sink bub
          by (simp add: remove_def Let_def i_def[symmetric] score_def)
      qed
    qed
  qed
qed

lemma bind_result_weak_cong: "m = m' \<Longrightarrow> bind_result m k = bind_result m' k"
  by simp

lemmas heap_eval = push_def pop_def remove_def rescoreElement_def sinkDown_def bubbleUp_def
  sinkDown_loop.simps bubbleUp_loop.simps choose_swap_def content_get_def content_set_def
  js_nth_def score_def less_js_def array_pop_def new_BinaryHeap_def Let_def


lemma butlast_ne_conv: "butlast xs \<noteq> [] \<longleftrightarrow> Suc 0 < length xs"
  by (cases xs rule: rev_cases) auto

lemma heap_inv_Nil [simp]: "heap_inv sc []"
  by (simp add: heap_inv_def)

lemma heap_except_up_heap_inv: "heap_inv sc xs \<Longrightarrow> heap_except_up sc xs n"
  unfolding heap_inv_def heap_except_up_def
proof (intro conjI allI impI)
  fix i assume h: "\<forall>i. 0 < i \<and> i < length xs \<longrightarrow> sc (xs ! parent_index i) \<le> sc (xs ! i)"
    and i: "0 < i \<and> i < length xs \<and> parent_index i = n \<and> 0 < n"
  then have "sc (xs ! n) \<le> sc (xs ! i)" "n < length xs" using parent_index_less[of i] by auto
  moreover have "sc (xs ! parent_index n) \<le> sc (xs ! n)" using h i calculation by auto
  ultimately show "sc (xs ! parent_index n) \<le> sc (xs ! i)" by simp
qed auto

lemma push_heap_inv:
  assumes "heap_inv sc (content h)"
  shows "\<exists>h'. push sc h e = Inr h' \<and> heap_inv sc (content h')"
  using assms by (simp add: push_list sink_list_heap heap_inv_push)

lemma heap_except_down_root: "heap_inv sc xs \<Longrightarrow> xs \<noteq> [] \<Longrightarrow> heap_except_down sc (xs[0 := e]) 0"
  unfolding heap_inv_def heap_except_down_def
proof (intro conjI allI impI)
  fix i assume h: "\<forall>i. 0 < i \<and> i < length xs \<longrightarrow> sc (xs ! parent_index i) \<le> sc (xs ! i)"
    and i: "0 < i \<and> i < length (xs[0 := e]) \<and> parent_index i \<noteq> 0"
  then show "sc (xs[0 := e] ! parent_index i) \<le> sc (xs[0 := e] ! i)"
    by (auto simp: nth_list_update)
qed auto

lemma pop_heap_inv:
  assumes "heap_inv sc (content h)"
  shows "\<exists>r h'. pop sc h = Inr (r, h') \<and> heap_inv sc (content h')"
proof (cases "butlast (content h) = []")
  case True
  then show ?thesis using assms by (auto simp: pop_list)
next
  case False
  have "heap_inv sc (butlast (content h))" using assms by (rule heap_inv_butlast)
  then have "heap_except_down sc ((butlast (content h))[0 := last (content h)]) 0"
    using False by (rule heap_except_down_root)
  then have "heap_inv sc (bubble_list sc ((butlast (content h))[0 := last (content h)]) 0)"
    using False by (intro bubble_list_heap) (auto simp: butlast_ne_conv)
  then show ?thesis using False by (auto simp: pop_list)
qed

lemma rescoreElement_heap_inv:
  assumes "heap_inv sc (content h)"
  shows "\<exists>h'. rescoreElement sc h node = Inr h' \<and> heap_inv sc (content h')"
proof (cases "node \<in> set (content h)")
  case True
  then have "nat (indexOf (content h) node) < length (content h)"
    using indexOf_present[OF True] by simp
  then have "heap_inv sc (sink_list sc (content h) (nat (indexOf (content h) node)))"
    using assms by (intro sink_list_heap heap_except_up_heap_inv)
  then show ?thesis using True by (simp add: rescoreElement_list)
next
  case False
  then show ?thesis using assms by (simp add: rescoreElement_list)
qed

lemma remove_heap_inv:
  assumes inv: "heap_inv sc (content h)"
  shows "\<exists>h'. remove sc h node = Inr h' \<and> heap_inv sc (content h')"
proof -
  define ys where "ys = butlast (content h)"
  define e where "e = last (content h)"
  define i where "i = indexOf (content h) node"
  have ys: "heap_inv sc ys" unfolding ys_def using inv by (rule heap_inv_butlast)
  have range: "- 1 \<le> i" "i < int (length (content h))"
    using indexOf_range[of "content h" node] by (simp_all add: i_def)
  have root: "ys \<noteq> [] \<Longrightarrow> heap_inv sc (bubble_list sc (ys[0 := e]) 0)"
    using ys by (intro bubble_list_heap heap_except_down_root) (auto simp: butlast_ne_conv)
  have inner: "heap_inv sc (if sc e < sc node then sink_list sc (ys[nat i := e]) (nat i)
                  else bubble_list sc (ys[nat i := e]) (nat i))"
    if il: "0 \<le> i" "nat i < length ys"
  proof -
    have node: "node \<in> set (content h)"
      using il indexOf_absent[of "content h" node] by (auto simp: i_def)
    have at: "content h ! nat i = node" using indexOf_present[OF node] by (simp add: i_def)
    then have ysi: "ys ! nat i = node" using il by (simp add: ys_def nth_butlast)
    show ?thesis
    proof (cases "sc e < sc node")
      case True
      then have "heap_except_up sc (ys[nat i := e]) (nat i)"
        using ys il ysi by (intro heap_inv_replace_up) auto
      then show ?thesis using True il by (simp add: sink_list_heap)
    next
      case False
      then have "heap_except_down sc (ys[nat i := e]) (nat i)"
        using ys il ysi by (intro heap_inv_replace_down) auto
      then show ?thesis using False il by (simp add: bubble_list_heap)
    qed
  qed
  show ?thesis
    unfolding remove_list ys_def[symmetric] e_def[symmetric] i_def[symmetric]
    using inv ys root inner range
    by (auto simp: ys_def butlast_ne_conv)
qed


lemma apply_op_heap_inv:
  assumes "heap_inv sc (content h)"
  shows "\<exists>h'. apply_op sc h op = Inr h' \<and> heap_inv sc (content h')"
proof (cases op)
  case (Push e)
  then show ?thesis using push_heap_inv[OF assms, of e] by simp
next
  case Pop
  from pop_heap_inv[OF assms] Pop show ?thesis by auto
next
  case (Remove node)
  then show ?thesis using remove_heap_inv[OF assms, of node] by simp
next
  case (RescoreElement node)
  then show ?thesis using rescoreElement_heap_inv[OF assms, of node] by simp
qed

lemma run_ops_heap_inv:
  "heap_inv sc (content h) \<Longrightarrow> \<exists>h'. run_ops sc h ops = Inr h' \<and> heap_inv sc (content h')"
proof (induction ops arbitrary: h)
  case Nil
  then show ?case by simp
next
  case (Cons op ops)
  from apply_op_heap_inv[OF Cons.prems]
  obtain h1 where h1: "apply_op sc h op = Inr h1" "heap_inv sc (content h1)" by blast
  from Cons.IH[OF h1(2)] h1(1) show ?case by simp
qed

lemma heap_inv_cong:
  assumes "\<forall>x \<in> set xs. sc' x = sc x"
  shows "heap_inv sc' xs = heap_inv sc xs"
proof -
  have "\<And>i. i < length xs \<Longrightarrow> sc' (xs ! i) = sc (xs ! i)" using assms by simp
  moreover have "\<And>i. 0 < i \<Longrightarrow> i < length xs \<Longrightarrow> parent_index i < length xs"
    using parent_index_less by (meson less_trans)
  ultimately show ?thesis by (auto simp: heap_inv_def)
qed


lemma heap_except_up_decrease:
  assumes inv: "heap_inv sc xs" and i: "i < length xs"
    and same: "\<And>j. j < length xs \<Longrightarrow> j \<noteq> i \<Longrightarrow> sc' (xs ! j) = sc (xs ! j)"
    and dec: "sc' (xs ! i) \<le> sc (xs ! i)"
  shows "heap_except_up sc' xs i"
  unfolding heap_except_up_def
proof (intro conjI allI impI)
  fix j assume j: "0 < j \<and> j < length xs \<and> j \<noteq> i"
  then have pj: "parent_index j < length xs" using parent_index_less[of j] by auto
  have "sc (xs ! parent_index j) \<le> sc (xs ! j)" using inv j by (simp add: heap_inv_def)
  moreover have "sc' (xs ! j) = sc (xs ! j)" using same j by simp
  moreover have "sc' (xs ! parent_index j) \<le> sc (xs ! parent_index j)"
    using same[OF pj] dec by (cases "parent_index j = i") auto
  ultimately show "sc' (xs ! parent_index j) \<le> sc' (xs ! j)" by simp
next
  fix j assume j: "0 < j \<and> j < length xs \<and> parent_index j = i \<and> 0 < i"
  then have ji: "j \<noteq> i" "parent_index i < i" using parent_index_less[of j] parent_index_less[of i] by auto
  then have pi: "parent_index i < length xs" "parent_index i \<noteq> i" using i by auto
  have "sc (xs ! parent_index i) \<le> sc (xs ! i)" "sc (xs ! i) \<le> sc (xs ! j)"
    using inv i j by (auto simp: heap_inv_def)
  moreover have "sc' (xs ! j) = sc (xs ! j)" using same j ji by simp
  moreover have "sc' (xs ! parent_index i) = sc (xs ! parent_index i)" using same pi by simp
  ultimately show "sc' (xs ! parent_index i) \<le> sc' (xs ! j)" by simp
qed


lemma count_list_le_1_index:
  "count_list xs x \<le> 1 \<Longrightarrow> i < length xs \<Longrightarrow> j < length xs \<Longrightarrow> xs ! i = x \<Longrightarrow> xs ! j = x
     \<Longrightarrow> i = j"
proof (induction xs arbitrary: i j)
  case Nil
  then show ?case by simp
next
  case (Cons a xs)
  show ?case
  proof (cases "a = x")
    case True
    with Cons.prems(1) have "count_list xs x = 0" by simp
    then have nx: "x \<notin> set xs" by (simp add: count_list_0_iff)
    have "i = 0" using Cons.prems(2,4) nx by (cases i) auto
    moreover have "j = 0" using Cons.prems(3,5) nx by (cases j) auto
    ultimately show ?thesis by simp
  next
    case False
    with Cons.prems obtain i' j' where "i = Suc i'" "j = Suc j'"
      by (cases i; cases j) auto
    with Cons.prems False Cons.IH[of i' j'] show ?thesis by simp
  qed
qed

lemma rescoreElement_lowered:
  assumes inv: "heap_inv sc (content h)" and mem: "node \<in> set (content h)"
    and once: "count_list (content h) node \<le> 1" and low: "v \<le> sc node"
  shows "\<exists>h'. rescoreElement (sc(node := v)) h node = Inr h' \<and>
              heap_inv (sc(node := v)) (content h')"
proof -
  let ?xs = "content h"
  let ?i = "nat (indexOf ?xs node)"
  from indexOf_present[OF mem] have i: "?i < length ?xs" "?xs ! ?i = node" by auto
  have same: "(sc(node := v)) (?xs ! j) = sc (?xs ! j)" if "j < length ?xs" "j \<noteq> ?i" for j
    using count_list_le_1_index[OF once that(1) i(1) _ i(2)] that(2) by auto
  have "heap_except_up (sc(node := v)) ?xs ?i"
    by (rule heap_except_up_decrease[OF inv i(1) same]) (simp_all add: i(2) low)
  then have "heap_inv (sc(node := v)) (sink_list (sc(node := v)) ?xs ?i)"
    using i(1) by (rule sink_list_heap)
  then show ?thesis using mem by (simp add: rescoreElement_list)
qed

lemma run_events_heap_inv:
  "heap_inv sc (content h) \<Longrightarrow> lowered_and_rescored sc h es \<Longrightarrow>
     \<exists>sc' h'. run_events sc h es = Inr (sc', h') \<and> heap_inv sc' (content h')"
proof (induction es arbitrary: sc h rule: length_induct)
  case (1 es)
  show ?case
  proof (cases es)
    case Nil
    then show ?thesis using "1.prems" by simp
  next
    case (Cons e es')
    show ?thesis
    proof (cases e)
      case (Call op)
      from apply_op_heap_inv[OF "1.prems"(1), of op]
      obtain h1 where h1: "apply_op sc h op = Inr h1" "heap_inv sc (content h1)" by blast
      from "1.prems"(2) Cons Call h1(1) have "lowered_and_rescored sc h1 es'" by simp
      with "1.IH" h1(2) Cons obtain sc' h' where
        "run_events sc h1 es' = Inr (sc', h')" "heap_inv sc' (content h')" by fastforce
      then show ?thesis using Cons Call h1(1) by simp
    next
      case (SetScore node v)
      show ?thesis
      proof (cases "node \<in> set (content h)")
        case False
        then have "heap_inv (sc(node := v)) (content h)"
          using "1.prems"(1) heap_inv_cong[of "content h" "sc(node := v)" sc] by auto
        moreover from "1.prems"(2) Cons SetScore
        have "lowered_and_rescored (sc(node := v)) h es'" by simp
        ultimately obtain sc' h' where
          "run_events (sc(node := v)) h es' = Inr (sc', h')" "heap_inv sc' (content h')"
          using "1.IH" Cons by fastforce
        then show ?thesis using Cons SetScore by simp
      next
        case True
        with "1.prems"(2) Cons SetScore have low: "v \<le> sc node"
          and once: "count_list (content h) node \<le> 1"
          and nxt: "(case es' of Call (RescoreElement n) # es'' \<Rightarrow> n = node | _ \<Rightarrow> False)"
          and ok: "lowered_and_rescored (sc(node := v)) h es'" by simp_all
        from nxt obtain es'' where es': "es' = Call (RescoreElement node) # es''"
          by (auto split: list.splits event.splits heap_op.splits)
        from rescoreElement_lowered[OF "1.prems"(1) True once low]
        obtain h1 where h1: "rescoreElement (sc(node := v)) h node = Inr h1"
          "heap_inv (sc(node := v)) (content h1)" by blast
        from ok es' h1(1) have "lowered_and_rescored (sc(node := v)) h1 es''" by simp
        moreover have "length es'' < length es" using Cons es' by simp
        ultimately obtain sc' h' where
          "run_events (sc(node := v)) h1 es'' = Inr (sc', h')" "heap_inv sc' (content h')"
          using "1.IH" h1(2) by blast
        then show ?thesis using Cons SetScore es' h1(1) by simp
      qed
    qed
  qed
qed

lemma lowered_and_rescored_calls: "lowered_and_rescored sc h (map Call ops)"
proof (induction ops arbitrary: h)
  case Nil
  then show ?case by simp
next
  case (Cons op ops)
  then show ?case by (simp split: sum.splits)
qed

lemma run_events_calls:
  "run_events sc h (map Call ops) = map_sum id (Pair sc) (run_ops sc h ops)"
proof (induction ops arbitrary: h)
  case Nil
  then show ?case by simp
next
  case (Cons op ops)
  then show ?case by (cases "apply_op sc h op") simp_all
qed

lemma lowered_and_rescored_prefix:
  "lowered_and_rescored sc h (es @ Call op # es') \<Longrightarrow> lowered_and_rescored sc h (es @ [Call op])"
proof (induction es arbitrary: sc h)
  case Nil
  then show ?case by (simp split: sum.splits)
next
  case (Cons e es)
  show ?case
  proof (cases e)
    case (Call op')
    with Cons show ?thesis by (simp split: sum.splits)
  next
    case (SetScore node v)
    from Cons.prems have "lowered_and_rescored (sc(node := v)) h (es @ Call op # es')"
      by (simp add: SetScore)
    then have "lowered_and_rescored (sc(node := v)) h (es @ [Call op])" by (rule Cons.IH)
    with Cons.prems show ?thesis by (cases es) (simp_all add: SetScore split: if_splits)
  qed
qed

text \<open>
  Claim C4 (as amended). Take any sequence of \<^verbatim>\<open>push\<close>, \<^verbatim>\<open>pop\<close>, \<^verbatim>\<open>remove\<close> and
  \<^verbatim>\<open>rescoreElement\<close> calls on a new heap, interleaved with assignments to the scores of
  nodes, in which every assignment to a node that is in the heap lowers its score or
  leaves it the same, concerns a node that the heap holds once, and is followed at once
  by \<^verbatim>\<open>rescoreElement\<close> of that node. Then every call returns normally, and after the
  sequence, and likewise after each of its calls, the heap order holds under the scores
  as they then are: at every position but the root, the score is at least the score at
  the parent position. A sequence of calls without any assignment is such a sequence
  (\<open>lowered_and_rescored_calls\<close>). When a score has been raised, the heap order does not
  come back: \<^verbatim>\<open>rescoreElement\<close> moves a node towards the root only.
\<close>

theorem heap_order_after_every_operation:
  assumes "lowered_and_rescored sc new_BinaryHeap es"
  shows "(\<exists>sc' h'. run_events sc new_BinaryHeap es = Inr (sc', h') \<and>
            heap_inv sc' (content h')) \<and>
         (\<forall>es1 op es2. es = es1 @ Call op # es2 \<longrightarrow>
            (\<exists>sc' h'. run_events sc new_BinaryHeap (es1 @ [Call op]) = Inr (sc', h') \<and>
               heap_inv sc' (content h')))"
proof (intro conjI allI impI)
  have new: "heap_inv sc (content (new_BinaryHeap :: 'a BinaryHeap))"
    by (simp add: new_BinaryHeap_def)
  from run_events_heap_inv[OF new assms]
  show "\<exists>sc' h'. run_events sc new_BinaryHeap es = Inr (sc', h') \<and> heap_inv sc' (content h')" .
  fix es1 op es2 assume "es = es1 @ Call op # es2"
  with assms have "lowered_and_rescored sc new_BinaryHeap (es1 @ [Call op])"
    using lowered_and_rescored_prefix by blast
  from run_events_heap_inv[OF new this]
  show "\<exists>sc' h'. run_events sc new_BinaryHeap (es1 @ [Call op]) = Inr (sc', h') \<and>
          heap_inv sc' (content h')" .
qed

text \<open>The theorem for claim C4 on a sequence in which \<^verbatim>\<open>rescoreElement\<close> has work to do: the
  score of \<open>9\<close>, in the last position of \<open>[1, 3, 5, 7, 9]\<close>, is lowered to \<open>0\<close>, and the call
  moves \<open>9\<close> to the root.\<close>

lemma rescoreElement_moves_lowered_node:
  "run_events real new_BinaryHeap
     [Call (Push 1), Call (Push 3), Call (Push 5), Call (Push 7), Call (Push 9),
      SetScore 9 0, Call (RescoreElement (9::nat))] =
     Inr ((real)(9 := 0), \<lparr>content = [9, 1, 5, 7, 3], content_m1 = None\<rparr>)"
  by (simp add: heap_eval cong: bind_result_weak_cong)

theorem heap_order_after_every_operation_witness:
  "lowered_and_rescored real new_BinaryHeap
     [Call (Push 1), Call (Push 3), Call (Push 5), Call (Push 7), Call (Push 9),
      SetScore 9 0, Call (RescoreElement (9::nat)), Call Pop, SetScore 9 20, Call (Push 9)] \<and>
   run_events real new_BinaryHeap
     [Call (Push 1), Call (Push 3), Call (Push 5), Call (Push 7), Call (Push 9),
      SetScore 9 0, Call (RescoreElement (9::nat)), Call Pop, SetScore 9 20, Call (Push 9)] =
      Inr ((real)(9 := 20), \<lparr>content = [1, 3, 5, 7, 9], content_m1 = None\<rparr>) \<and>
   heap_inv ((real)(9 := 20)) [1, 3, 5, 7, 9 :: nat]"
proof -
  let ?es = "[Call (Push 1), Call (Push 3), Call (Push 5), Call (Push 7), Call (Push 9),
      SetScore 9 0, Call (RescoreElement (9::nat)), Call Pop, SetScore 9 20, Call (Push 9)]"
  have ok: "lowered_and_rescored real new_BinaryHeap ?es"
    by (simp add: heap_eval cong: bind_result_weak_cong)
  have run: "run_events real new_BinaryHeap ?es =
      Inr ((real)(9 := 20), \<lparr>content = [1, 3, 5, 7, 9], content_m1 = None\<rparr>)"
    by (simp add: heap_eval cong: bind_result_weak_cong)
  from heap_order_after_every_operation[OF ok]
  obtain sc' h' where h': "run_events real new_BinaryHeap ?es = Inr (sc', h')"
    "heap_inv sc' (content h')" by blast
  from h'(1) have "sc' = (real)(9 := 20)" "h' = \<lparr>content = [1, 3, 5, 7, 9], content_m1 = None\<rparr>"
    unfolding run by simp_all
  with h'(2) have "heap_inv ((real)(9 := 20)) [1, 3, 5, 7, 9 :: nat]" by simp
  with run ok show ?thesis by (intro conjI)
qed

text \<open>
  The claim C4 as stated fails when a score is raised: after \<^verbatim>\<open>push(1); push(2)\<close> with the
  scores \<open>1\<close> and \<open>2\<close>, the score of the root \<open>1\<close> becomes \<open>3\<close>, and \<^verbatim>\<open>rescoreElement(1)\<close> leaves
  the content \<open>[1, 2]\<close>, of scores \<open>[3, 2]\<close>.
\<close>

theorem rescoreElement_after_raise:
  "run_events real new_BinaryHeap
     [Call (Push 1), Call (Push 2), SetScore 1 3, Call (RescoreElement (1::nat))] =
     Inr ((real)(1 := 3), \<lparr>content = [1, 2], content_m1 = None\<rparr>) \<and>
   \<not> heap_inv ((real)(1 := 3)) [1, 2 :: nat]"
proof -
  have "\<not> heap_inv ((real)(1 := 3)) [1, 2 :: nat]"
  proof
    assume "heap_inv ((real)(1 := 3)) [1, 2 :: nat]"
    then have "((real)(1 := 3)) ([1, 2 :: nat] ! parent_index 1) \<le> ((real)(1 := 3)) ([1, 2] ! 1)"
      unfolding heap_inv_def by (elim allE[of _ 1]) simp
    then show False by (simp add: parent_index_def)
  qed
  then show ?thesis by (simp add: heap_eval cong: bind_result_weak_cong)
qed


text \<open>
  Claim C2 (what the code does instead). \<^verbatim>\<open>remove\<close> compares the index of the node with
  \<^verbatim>\<open>content.length - 1\<close> after \<^verbatim>\<open>content.pop()\<close> has already shortened the array. A node
  in the last position is popped and then written back, so it stays in the heap; a node
  in the position before the last is left where it is and the last element is lost
  instead. Here on the heap that \<^verbatim>\<open>push(a); push(b)\<close> builds, with the weight as score.
\<close>

theorem remove_last_node_stays:
  "(let a = \<lparr>node_x = 0, node_y = 0, node_w = 1\<rparr>;
        b = \<lparr>node_x = 0, node_y = 1, node_w = 2\<rparr>
    in bind_result (push node_w new_BinaryHeap a) (\<lambda>h. push node_w h b)
         = Inr \<lparr>content = [a, b], content_m1 = None\<rparr> \<and>
       remove node_w \<lparr>content = [a, b], content_m1 = None\<rparr> b
         = Inr \<lparr>content = [a, b], content_m1 = None\<rparr> \<and>
       remove node_w \<lparr>content = [a, b], content_m1 = None\<rparr> a
         = Inr \<lparr>content = [a], content_m1 = None\<rparr>)"
  by (simp add: heap_eval cong: bind_result_weak_cong)


section \<open>Class \<^verbatim>\<open>AStar\<close>: \<^verbatim>\<open>pathTo\<close> and \<^verbatim>\<open>search\<close>\<close>

text \<open>The default score function of \<^verbatim>\<open>AStar.getHeap\<close>, \<^verbatim>\<open>node => node.f\<close>: it reads the field
  as it is when the heap compares.\<close>

definition f_score :: "Graph \<Rightarrow> GridNode \<Rightarrow> real" where
  "f_score g node = node_f (nodeState g node)"

text \<open>\<^verbatim>\<open>pathTo\<close> follows \<^verbatim>\<open>parent\<close> references until a node has none; on a cycle of
  references it does not return, which is the value \<open>None\<close>.\<close>

partial_function (option) pathTo_loop :: "Graph \<Rightarrow> GridNode \<Rightarrow> GridNode list \<Rightarrow> GridNode list option" where
  "pathTo_loop g cur path =
     (case parent (nodeState g cur) of
        None \<Rightarrow> Some path
      | Some p \<Rightarrow> pathTo_loop g p (cur # path))"

definition pathTo :: "Graph \<Rightarrow> GridNode \<Rightarrow> GridNode list option" where
  "pathTo g node = pathTo_loop g node []"

text \<open>The body of the \<^verbatim>\<open>for\<close> loop over the neighbours of \<^verbatim>\<open>currentNode\<close>, in three
  parts: the assignments to the fields of \<^verbatim>\<open>neighbor\<close> with \<^verbatim>\<open>markDirty\<close>; the update of
  \<^verbatim>\<open>closestNode\<close>; and the whole body, which ends with \<^verbatim>\<open>push\<close> or \<^verbatim>\<open>rescoreElement\<close>.
  \<^verbatim>\<open>neighbor.h || heuristic(neighbor, end)\<close> keeps \<^verbatim>\<open>neighbor.h\<close> unless it is \<open>0\<close>.\<close>

definition update_neighbor ::
  "(pos \<Rightarrow> pos \<Rightarrow> real) \<Rightarrow> GridNode \<Rightarrow> GridNode \<Rightarrow> real \<Rightarrow> Graph \<Rightarrow> GridNode \<Rightarrow> Graph" where
  "update_neighbor heuristic end currentNode gScore g neighbor =
     (let n = nodeState g neighbor;
          n = n\<lparr>visited := True\<rparr>;
          n = n\<lparr>parent := Some currentNode\<rparr>;
          n = n\<lparr>node_h := (if node_h n \<noteq> 0 then node_h n
                            else heuristic (pos_of neighbor) (pos_of end))\<rparr>;
          n = n\<lparr>node_g := gScore\<rparr>;
          n = n\<lparr>node_f := node_g n + node_h n\<rparr>;
          g = g\<lparr>nodeState := (nodeState g)(neighbor := n)\<rparr>
      in markDirty g neighbor)"

definition update_closest :: "bool \<Rightarrow> Graph \<Rightarrow> GridNode \<Rightarrow> GridNode \<Rightarrow> GridNode" where
  "update_closest closest g closestNode neighbor =
     (if closest then
        (if node_h (nodeState g neighbor) < node_h (nodeState g closestNode) \<or>
            (node_h (nodeState g neighbor) = node_h (nodeState g closestNode) \<and>
             node_g (nodeState g neighbor) < node_g (nodeState g closestNode))
         then neighbor else closestNode)
      else closestNode)"

record SearchState =
  graph :: Graph
  openHeap :: "GridNode BinaryHeap"
  closestNode :: GridNode

definition visit_neighbor ::
  "bool \<Rightarrow> (pos \<Rightarrow> pos \<Rightarrow> real) \<Rightarrow> GridNode \<Rightarrow> GridNode \<Rightarrow> SearchState \<Rightarrow> GridNode
     \<Rightarrow> error + SearchState" where
  "visit_neighbor closest heuristic end currentNode st neighbor =
     (let g = graph st
      in if closed (nodeState g neighbor) \<or> isNodeWall neighbor then Inr st
         else
           let gScore = node_g (nodeState g currentNode) + getNodeCost neighbor (Some currentNode);
               beenVisited = visited (nodeState g neighbor)
           in if \<not> beenVisited \<or> gScore < node_g (nodeState g neighbor) then
                let g = update_neighbor heuristic end currentNode gScore g neighbor;
                    closestNode = update_closest closest g (closestNode st) neighbor
                in bind_result
                     (if \<not> beenVisited then push (f_score g) (openHeap st) neighbor
                      else rescoreElement (f_score g) (openHeap st) neighbor)
                     (\<lambda>h. Inr \<lparr>graph = g, openHeap = h, closestNode = closestNode\<rparr>)
              else Inr st)"

fun visit_neighbors ::
  "bool \<Rightarrow> (pos \<Rightarrow> pos \<Rightarrow> real) \<Rightarrow> GridNode \<Rightarrow> GridNode \<Rightarrow> SearchState \<Rightarrow> GridNode list
     \<Rightarrow> error + SearchState" where
  "visit_neighbors closest heuristic end currentNode st [] = Inr st"
| "visit_neighbors closest heuristic end currentNode st (neighbor # rest) =
     bind_result (visit_neighbor closest heuristic end currentNode st neighbor)
       (\<lambda>st. visit_neighbors closest heuristic end currentNode st rest)"

text \<open>\<^verbatim>\<open>currentNode.closed = true\<close>.\<close>

definition close_node :: "Graph \<Rightarrow> GridNode \<Rightarrow> Graph" where
  "close_node g node = g\<lparr>nodeState := (nodeState g)(node := (nodeState g node)\<lparr>closed := True\<rparr>)\<rparr>"

text \<open>One round of the \<^verbatim>\<open>while\<close> loop after the test \<^verbatim>\<open>openHeap.size() > 0\<close>, up to the
  end of the \<^verbatim>\<open>for\<close> loop. \<open>Inr (Inl r)\<close> is the \<^verbatim>\<open>return\<close> inside the loop, \<open>Inr (Inr st)\<close>
  the state that the next round starts from. Writing \<^verbatim>\<open>closed\<close> on the \<^verbatim>\<open>undefined\<close> that
  \<^verbatim>\<open>pop\<close> returns on an empty heap would raise a \<^verbatim>\<open>TypeError\<close>.\<close>

definition search_round ::
  "bool \<Rightarrow> (pos \<Rightarrow> pos \<Rightarrow> real) \<Rightarrow> GridNode \<Rightarrow> SearchState
     \<Rightarrow> error + (GridNode \<times> SearchState) + SearchState" where
  "search_round closest heuristic end st =
     bind_result (pop (f_score (graph st)) (openHeap st)) (\<lambda>(currentNode, h).
       case currentNode of
         None \<Rightarrow> Inl TypeError
       | Some currentNode \<Rightarrow>
           let st = st\<lparr>openHeap := h\<rparr>
           in if currentNode = end then Inr (Inl (currentNode, st))
              else
                let st = st\<lparr>graph := close_node (graph st) currentNode\<rparr>;
                    neighbors = neighbors (graph st) currentNode
                in bind_result (visit_neighbors closest heuristic end currentNode st neighbors)
                     (\<lambda>st. Inr (Inr st)))"

function search_loop ::
  "bool \<Rightarrow> (pos \<Rightarrow> pos \<Rightarrow> real) \<Rightarrow> GridNode \<Rightarrow> SearchState
     \<Rightarrow> (error + GridNode list \<times> SearchState) option" where
  "search_loop closest heuristic end st =
     (if size_heap (openHeap st) > 0 then
        (case search_round closest heuristic end st of
           Inl e \<Rightarrow> Some (Inl e)
         | Inr (Inl (currentNode, st)) \<Rightarrow>
             map_option (\<lambda>path. Inr (path, st)) (pathTo (graph st) currentNode)
         | Inr (Inr st) \<Rightarrow> search_loop closest heuristic end st)
      else if closest then
        map_option (\<lambda>path. Inr (path, st)) (pathTo (graph st) (closestNode st))
      else Some (Inr ([], st)))"
  by pat_completeness auto

text \<open>\<^verbatim>\<open>search\<close> up to the \<^verbatim>\<open>while\<close> loop: the state that the loop starts from.
  \<^verbatim>\<open>heuristic || AStar.heuristics.manhattan\<close> replaces a missing heuristic.\<close>

definition search_init ::
  "Graph \<Rightarrow> GridNode \<Rightarrow> GridNode \<Rightarrow> (pos \<Rightarrow> pos \<Rightarrow> real) \<Rightarrow> error + SearchState" where
  "search_init g start end heuristic =
     (let g = cleanDirty g;
          openHeap = new_BinaryHeap;
          closestNode = start;
          g = g\<lparr>nodeState := (nodeState g)(start :=
                (nodeState g start)\<lparr>node_h := heuristic (pos_of start) (pos_of end)\<rparr>)\<rparr>;
          g = markDirty g start
      in bind_result (push (f_score g) openHeap start) (\<lambda>openHeap.
           Inr \<lparr>graph = g, openHeap = openHeap, closestNode = closestNode\<rparr>))"

definition search ::
  "Graph \<Rightarrow> GridNode \<Rightarrow> GridNode \<Rightarrow> bool \<Rightarrow> (pos \<Rightarrow> pos \<Rightarrow> real) option
     \<Rightarrow> (error + GridNode list \<times> SearchState) option" where
  "search g start end closest heuristic =
     (let heuristic = (case heuristic of None \<Rightarrow> manhattan | Some h \<Rightarrow> h)
      in case search_init g start end heuristic of
           Inl e \<Rightarrow> Some (Inl e)
         | Inr st \<Rightarrow> search_loop closest heuristic end st)"

subsection \<open>The loop of \<^verbatim>\<open>search\<close> terminates\<close>

definition unvisited :: "Graph \<Rightarrow> GridNode set" where
  "unvisited g = {n \<in> set (concat (grid g)). \<not> visited (nodeState g n)}"

definition loop_measure :: "SearchState \<Rightarrow> nat" where
  "loop_measure st = length (content (openHeap st)) + 2 * card (unvisited (graph st))"

lemma in_bounds_in_grid:
  assumes "in_bounds gr p"
  shows "gr ! nat (fst p) ! nat (snd p) \<in> set (concat gr)"
proof -
  from assms have "nat (fst p) < length gr" "nat (snd p) < length (gr ! nat (fst p))"
    by (auto simp: in_bounds_def)
  then have "gr ! nat (fst p) \<in> set gr" "gr ! nat (fst p) ! nat (snd p) \<in> set (gr ! nat (fst p))"
    by (auto intro: nth_mem)
  then show ?thesis by auto
qed

lemma neighbors_in_grid: "set (neighbors g node) \<subseteq> set (concat (grid g))"
proof -
  have "set (neighbors_spec g node) \<subseteq> set (concat (grid g))"
    unfolding neighbors_spec_def Let_def using in_bounds_in_grid[of "grid g"] by auto
  then show ?thesis by (simp add: neighbors_eq_spec)
qed

text \<open>The effect of \<^verbatim>\<open>visit_neighbor\<close> in closed form.\<close>

definition tentative_g :: "Graph \<Rightarrow> GridNode \<Rightarrow> GridNode \<Rightarrow> real" where
  "tentative_g g currentNode neighbor =
     node_g (nodeState g currentNode) + getNodeCost neighbor (Some currentNode)"

definition relaxes :: "Graph \<Rightarrow> GridNode \<Rightarrow> GridNode \<Rightarrow> bool" where
  "relaxes g currentNode neighbor =
     (\<not> closed (nodeState g neighbor) \<and> \<not> isNodeWall neighbor \<and>
      (\<not> visited (nodeState g neighbor) \<or>
       tentative_g g currentNode neighbor < node_g (nodeState g neighbor)))"

definition cached_h :: "(pos \<Rightarrow> pos \<Rightarrow> real) \<Rightarrow> GridNode \<Rightarrow> Graph \<Rightarrow> GridNode \<Rightarrow> real" where
  "cached_h heuristic end g neighbor =
     (if node_h (nodeState g neighbor) \<noteq> 0 then node_h (nodeState g neighbor)
      else heuristic (pos_of neighbor) (pos_of end))"

definition relaxed_state ::
  "(pos \<Rightarrow> pos \<Rightarrow> real) \<Rightarrow> GridNode \<Rightarrow> GridNode \<Rightarrow> Graph \<Rightarrow> GridNode \<Rightarrow> NodeState" where
  "relaxed_state heuristic end currentNode g neighbor =
     (nodeState g neighbor)
       \<lparr>visited := True, parent := Some currentNode,
        node_h := cached_h heuristic end g neighbor,
        node_g := tentative_g g currentNode neighbor,
        node_f := tentative_g g currentNode neighbor + cached_h heuristic end g neighbor\<rparr>"

definition relaxed_graph ::
  "(pos \<Rightarrow> pos \<Rightarrow> real) \<Rightarrow> GridNode \<Rightarrow> GridNode \<Rightarrow> Graph \<Rightarrow> GridNode \<Rightarrow> Graph" where
  "relaxed_graph heuristic end currentNode g neighbor =
     g\<lparr>nodeState := (nodeState g)(neighbor := relaxed_state heuristic end currentNode g neighbor),
       dirtyNodes := dirtyNodes g @ [neighbor]\<rparr>"

definition closer :: "Graph \<Rightarrow> GridNode \<Rightarrow> GridNode \<Rightarrow> bool" where
  "closer g a b =
     (node_h (nodeState g a) < node_h (nodeState g b) \<or>
      (node_h (nodeState g a) = node_h (nodeState g b) \<and>
       node_g (nodeState g a) < node_g (nodeState g b)))"

lemma visit_neighbor_skip:
  "\<not> relaxes (graph st) currentNode neighbor \<Longrightarrow>
   visit_neighbor closest heuristic end currentNode st neighbor = Inr st"
  by (auto simp: visit_neighbor_def relaxes_def tentative_g_def Let_def)

lemma visit_neighbor_relax:
  fixes heuristic :: "pos \<Rightarrow> pos \<Rightarrow> real" and "end" currentNode neighbor :: GridNode
    and st :: SearchState
  assumes "relaxes (graph st) currentNode neighbor"
  defines "g' \<equiv> relaxed_graph heuristic end currentNode (graph st) neighbor"
  shows "visit_neighbor closest heuristic end currentNode st neighbor =
     Inr \<lparr>graph = g',
          openHeap =
            (if \<not> visited (nodeState (graph st) neighbor)
             then (openHeap st)\<lparr>content :=
                    sink_list (f_score g') (content (openHeap st) @ [neighbor])
                      (length (content (openHeap st)))\<rparr>
             else if neighbor \<in> set (content (openHeap st))
             then (openHeap st)\<lparr>content :=
                    sink_list (f_score g') (content (openHeap st))
                      (nat (indexOf (content (openHeap st)) neighbor))\<rparr>
             else openHeap st),
          closestNode =
            (if closest \<and> closer g' neighbor (closestNode st) then neighbor else closestNode st)\<rparr>"
proof -
  have g: "update_neighbor heuristic end currentNode (tentative_g (graph st) currentNode neighbor)
             (graph st) neighbor = g'"
    by (simp add: update_neighbor_def Let_def g'_def relaxed_graph_def relaxed_state_def
          cached_h_def markDirty_def)
  have c: "update_closest closest g' (closestNode st) neighbor =
             (if closest \<and> closer g' neighbor (closestNode st) then neighbor else closestNode st)"
    by (simp add: update_closest_def closer_def)
  from assms(1) have r: "\<not> closed (nodeState (graph st) neighbor)" "\<not> isNodeWall neighbor"
    "\<not> visited (nodeState (graph st) neighbor) \<or>
       tentative_g (graph st) currentNode neighbor < node_g (nodeState (graph st) neighbor)"
    by (auto simp: relaxes_def)
  show ?thesis
    unfolding visit_neighbor_def Let_def tentative_g_def[symmetric] g c
    using r by (simp add: push_list rescoreElement_list)
qed

lemma visit_neighbor_result:
  "\<exists>st'. visit_neighbor closest heuristic end currentNode st neighbor = Inr st'"
  by (cases "relaxes (graph st) currentNode neighbor")
     (simp_all add: visit_neighbor_skip visit_neighbor_relax)

lemma relaxed_graph_simps [simp]:
  "grid (relaxed_graph heuristic end currentNode g neighbor) = grid g"
  "diagonal (relaxed_graph heuristic end currentNode g neighbor) = diagonal g"
  "nodes (relaxed_graph heuristic end currentNode g neighbor) = nodes g"
  "dirtyNodes (relaxed_graph heuristic end currentNode g neighbor) = dirtyNodes g @ [neighbor]"
  "nodeState (relaxed_graph heuristic end currentNode g neighbor) =
     (nodeState g)(neighbor := relaxed_state heuristic end currentNode g neighbor)"
  by (simp_all add: relaxed_graph_def)

lemma relaxed_state_simps [simp]:
  "node_f (relaxed_state heuristic end currentNode g neighbor) =
     tentative_g g currentNode neighbor + cached_h heuristic end g neighbor"
  "node_g (relaxed_state heuristic end currentNode g neighbor) = tentative_g g currentNode neighbor"
  "node_h (relaxed_state heuristic end currentNode g neighbor) = cached_h heuristic end g neighbor"
  "visited (relaxed_state heuristic end currentNode g neighbor) = True"
  "closed (relaxed_state heuristic end currentNode g neighbor) = closed (nodeState g neighbor)"
  "parent (relaxed_state heuristic end currentNode g neighbor) = Some currentNode"
  by (simp_all add: relaxed_state_def)

lemma close_node_simps [simp]:
  "grid (close_node g node) = grid g"
  "diagonal (close_node g node) = diagonal g"
  "nodes (close_node g node) = nodes g"
  "dirtyNodes (close_node g node) = dirtyNodes g"
  "nodeState (close_node g node) = (nodeState g)(node := (nodeState g node)\<lparr>closed := True\<rparr>)"
  by (simp_all add: close_node_def)

lemma neighbors_close_node [simp]: "neighbors (close_node g node) n = neighbors g n"
  by (simp add: neighbors_def)

lemma neighbors_relaxed_graph [simp]:
  "neighbors (relaxed_graph heuristic end currentNode g neighbor) n = neighbors g n"
  by (simp add: neighbors_def)

lemma unvisited_close_node [simp]: "unvisited (close_node g node) = unvisited g"
  by (auto simp: unvisited_def)

lemma unvisited_relaxed_graph [simp]:
  "unvisited (relaxed_graph heuristic end currentNode g neighbor) = unvisited g - {neighbor}"
  by (auto simp: unvisited_def)

lemma visit_neighbor_measure:
  assumes "visit_neighbor closest heuristic end currentNode st neighbor = Inr st'"
    and "neighbor \<in> set (concat (grid (graph st)))"
  shows "loop_measure st' \<le> loop_measure st \<and> grid (graph st') = grid (graph st)"
proof (cases "relaxes (graph st) currentNode neighbor")
  case False
  then have "st' = st" using assms(1) by (simp add: visit_neighbor_skip)
  then show ?thesis by simp
next
  case True
  note st' = assms(1)[unfolded visit_neighbor_relax[OF True]]
  from st' have g: "graph st' = relaxed_graph heuristic end currentNode (graph st) neighbor"
    by auto
  show ?thesis
  proof (cases "visited (nodeState (graph st) neighbor)")
    case True
    then have "neighbor \<notin> unvisited (graph st)" by (simp add: unvisited_def)
    then have "unvisited (graph st') = unvisited (graph st)" by (simp add: g)
    moreover have "length (content (openHeap st')) = length (content (openHeap st))"
      using st' True by auto
    ultimately show ?thesis by (simp add: loop_measure_def g)
  next
    case nv: False
    have l: "length (content (openHeap st')) = Suc (length (content (openHeap st)))"
      using st' nv by auto
    have "neighbor \<in> unvisited (graph st)" using nv assms(2) by (simp add: unvisited_def)
    moreover have "finite (unvisited (graph st))" by (simp add: unvisited_def)
    ultimately have "card (unvisited (graph st')) < card (unvisited (graph st))"
      unfolding g unvisited_relaxed_graph by (intro card_Diff1_less)
    then show ?thesis using l by (simp add: loop_measure_def g)
  qed
qed

lemma visit_neighbors_measure:
  assumes "visit_neighbors closest heuristic end currentNode st ns = Inr st'"
    and "set ns \<subseteq> set (concat (grid (graph st)))"
  shows "loop_measure st' \<le> loop_measure st \<and> grid (graph st') = grid (graph st)"
  using assms
proof (induction ns arbitrary: st)
  case Nil
  then show ?case by simp
next
  case (Cons n ns)
  from visit_neighbor_result[of closest heuristic "end" currentNode st n]
  obtain st1 where st1: "visit_neighbor closest heuristic end currentNode st n = Inr st1" by blast
  from visit_neighbor_measure[OF st1] Cons.prems(2)
  have m1: "loop_measure st1 \<le> loop_measure st" "grid (graph st1) = grid (graph st)" by auto
  from Cons.prems st1 have "visit_neighbors closest heuristic end currentNode st1 ns = Inr st'" by simp
  from Cons.IH[OF this] Cons.prems(2) m1 show ?case by auto
qed

lemma search_round_measure:
  assumes "search_round closest heuristic end st = Inr (Inr st')"
    and "0 < size_heap (openHeap st)"
  shows "loop_measure st' < loop_measure st"
proof -
  let ?h = "openHeap st"
  from assms(2) have ne: "content ?h \<noteq> []" by (simp add: size_heap_def)
  define h1 where "h1 = ?h\<lparr>content := (if butlast (content ?h) = [] then []
       else bubble_list (f_score (graph st)) ((butlast (content ?h))[0 := last (content ?h)]) 0)\<rparr>"
  define cur where "cur = content ?h ! 0"
  have pop: "pop (f_score (graph st)) ?h = Inr (Some cur, h1)"
    using ne by (simp add: pop_list h1_def cur_def)
  have len: "Suc (length (content h1)) = length (content ?h)"
    using ne by (cases "content ?h" rule: rev_cases) (auto simp: h1_def)
  define st1 where "st1 = st\<lparr>openHeap := h1, graph := close_node (graph st) cur\<rparr>"
  have m1: "Suc (loop_measure st1) = loop_measure st"
    using len by (simp add: st1_def loop_measure_def)
  have vn: "visit_neighbors closest heuristic end cur st1 (neighbors (graph st1) cur) = Inr st'"
    using assms(1) pop
    by (auto simp: search_round_def Let_def st1_def bind_result_def split: if_splits sum.splits)
  from visit_neighbors_measure[OF vn neighbors_in_grid] m1 show ?thesis by simp
qed

termination search_loop
  by (relation "measure (\<lambda>(closest, heuristic, end, st). loop_measure st)")
     (auto simp: search_round_measure)

declare search_loop.simps [simp del]



section \<open>Properties of \<^verbatim>\<open>search\<close>\<close>

lemma sqrt2_not_decimal: "sqrt 2 \<noteq> (1.41421 :: real)"
proof
  assume a: "sqrt 2 = (1.41421 :: real)"
  have "sqrt 2 * sqrt 2 = (2 :: real)" by simp
  then have "(1.41421 :: real) * 1.41421 = 2" unfolding a .
  then show False by simp
qed

lemma visit_neighbor_g:
  assumes "relaxes (graph st) currentNode neighbor"
    and "visit_neighbor closest heuristic end currentNode st neighbor = Inr st'"
  shows "node_g (nodeState (graph st') neighbor) =
           node_g (nodeState (graph st) currentNode) +
           (if node_x currentNode \<noteq> node_x neighbor \<and> node_y currentNode \<noteq> node_y neighbor
            then node_w neighbor * 1.41421 else node_w neighbor)"
  using assms(2) unfolding visit_neighbor_relax[OF assms(1)]
  by (auto simp: tentative_g_def getNodeCost_def)

text \<open>
  Claim C5 (as amended). In every expansion step of \<^verbatim>\<open>search\<close> that updates a neighbour (the
  neighbour is neither closed nor a wall, and is unvisited or improved), the cost stored
  as its \<^verbatim>\<open>g\<close> is \<^verbatim>\<open>currentNode.g\<close> plus the neighbour's weight multiplied by the constant
  \<open>1.41421\<close> when the step is diagonal (both coordinates differ), and plus the neighbour's
  weight alone otherwise; the weight of the cell that is left plays no part. The constant
  is not \<open>\<surd>2\<close>: the claim's "scaled by exactly \<open>\<surd>2\<close>" fails on a diagonal step onto a cell
  of weight 1.
\<close>

theorem candidate_cost:
  assumes "\<not> closed (nodeState (graph st) neighbor)" and "\<not> isNodeWall neighbor"
    and "\<not> visited (nodeState (graph st) neighbor) \<or>
         node_g (nodeState (graph st) currentNode) + getNodeCost neighbor (Some currentNode)
           < node_g (nodeState (graph st) neighbor)"
    and "visit_neighbor closest heuristic end currentNode st neighbor = Inr st'"
  shows "node_g (nodeState (graph st') neighbor) =
           node_g (nodeState (graph st) currentNode) +
           (if node_x currentNode \<noteq> node_x neighbor \<and> node_y currentNode \<noteq> node_y neighbor
            then node_w neighbor * 1.41421 else node_w neighbor)"
  using assms by (intro visit_neighbor_g) (auto simp: relaxes_def tentative_g_def)


theorem candidate_cost_witness:
  "(let cur = \<lparr>node_x = 0, node_y = 0, node_w = 1\<rparr>;
        nb = \<lparr>node_x = 1, node_y = 1, node_w = 3\<rparr>;
        st = \<lparr>graph = close_node (new_Graph [[1, 1], [1, 3]] True) cur,
              openHeap = new_BinaryHeap, closestNode = cur\<rparr>
    in case visit_neighbor False manhattan nb cur st nb of
         Inl e \<Rightarrow> False
       | Inr st' \<Rightarrow> node_g (nodeState (graph st') nb) = 4.24263)"
proof -
  let ?cur = "\<lparr>node_x = 0, node_y = 0, node_w = 1\<rparr>"
  let ?nb = "\<lparr>node_x = 1, node_y = 1, node_w = 3\<rparr>"
  let ?st = "\<lparr>graph = close_node (new_Graph [[1, 1], [1, 3]] True) ?cur,
              openHeap = new_BinaryHeap, closestNode = ?cur\<rparr>"
  have base: "nodeState (close_node (new_Graph [[1, 1], [1, 3]] True) ?cur) ?nb = clean_state"
    "nodeState (close_node (new_Graph [[1, 1], [1, 3]] True) ?cur) ?cur = clean_state\<lparr>closed := True\<rparr>"
    by simp_all
  obtain st' where v: "visit_neighbor False manhattan ?nb ?cur ?st ?nb = Inr st'"
    using visit_neighbor_result by blast
  have "node_g (nodeState (graph st') ?nb) =
           node_g (nodeState (graph ?st) ?cur) +
           (if node_x ?cur \<noteq> node_x ?nb \<and> node_y ?cur \<noteq> node_y ?nb
            then node_w ?nb * 1.41421 else node_w ?nb)"
    by (rule candidate_cost[OF _ _ _ v]) (simp_all add: base clean_state_def isNodeWall_def)
  then have "node_g (nodeState (graph st') ?nb) = 4.24263"
    by (simp add: base clean_state_def)
  then show ?thesis by (simp add: v Let_def)
qed

theorem candidate_cost_not_sqrt2:
  "(let cur = \<lparr>node_x = 0, node_y = 0, node_w = 1\<rparr>;
        nb = \<lparr>node_x = 1, node_y = 1, node_w = 1\<rparr>;
        st = \<lparr>graph = close_node (new_Graph [[1, 1], [1, 1]] True) cur,
              openHeap = new_BinaryHeap, closestNode = cur\<rparr>
    in node_x cur \<noteq> node_x nb \<and> node_y cur \<noteq> node_y nb \<and>
       (case visit_neighbor False manhattan nb cur st nb of
          Inl e \<Rightarrow> False
        | Inr st' \<Rightarrow>
            node_g (nodeState (graph st') nb) = 1.41421 \<and>
            node_g (nodeState (graph st') nb) \<noteq>
              node_g (nodeState (graph st) cur) + node_w nb * sqrt 2))"
proof -
  let ?cur = "\<lparr>node_x = 0, node_y = 0, node_w = 1\<rparr>"
  let ?nb = "\<lparr>node_x = 1, node_y = 1, node_w = 1\<rparr>"
  let ?st = "\<lparr>graph = close_node (new_Graph [[1, 1], [1, 1]] True) ?cur,
              openHeap = new_BinaryHeap, closestNode = ?cur\<rparr>"
  have base: "nodeState (close_node (new_Graph [[1, 1], [1, 1]] True) ?cur) ?nb = clean_state"
    "nodeState (close_node (new_Graph [[1, 1], [1, 1]] True) ?cur) ?cur = clean_state\<lparr>closed := True\<rparr>"
    by simp_all
  have r: "relaxes (graph ?st) ?cur ?nb"
    by (simp add: relaxes_def base clean_state_def isNodeWall_def)
  show ?thesis
    using sqrt2_not_decimal
    by (simp add: Let_def visit_neighbor_relax[OF r] tentative_g_def getNodeCost_def base clean_state_def)
qed

lemma visit_neighbors_result:
  "\<exists>st'. visit_neighbors closest heuristic end currentNode st ns = Inr st'"
proof (induction ns arbitrary: st)
  case Nil
  then show ?case by simp
next
  case (Cons n ns)
  from visit_neighbor_result[of closest heuristic "end" currentNode st n]
  obtain st1 where "visit_neighbor closest heuristic end currentNode st n = Inr st1" by blast
  with Cons[of st1] show ?case by simp
qed

lemma pop_nonempty:
  assumes "0 < size_heap h"
  shows "\<exists>h'. pop sc h = Inr (Some (content h ! 0), h') \<and>
              mset (content h') + {#content h ! 0#} = mset (content h)"
proof -
  from assms have ne: "content h \<noteq> []" by (simp add: size_heap_def)
  show ?thesis
  proof (cases "butlast (content h) = []")
    case True
    with ne have "content h = [content h ! 0]"
      by (cases "content h" rule: rev_cases) auto
    then have "mset (content h) = {#content h ! 0#}" by (metis mset.simps(1) mset.simps(2))
    with ne True show ?thesis by (simp add: pop_list)
  next
    case False
    let ?ys = "butlast (content h)"
    have l: "0 < length ?ys" using False by (simp add: butlast_ne_conv)
    have "mset (bubble_list sc (?ys[0 := last (content h)]) 0) = mset (?ys[0 := last (content h)])"
      using l by (intro mset_bubble_list) simp
    also have "\<dots> = mset ?ys - {#?ys ! 0#} + {#last (content h)#}"
      using l by (simp add: mset_update)
    finally have "mset (bubble_list sc (?ys[0 := last (content h)]) 0) + {#?ys ! 0#}
          = mset ?ys + {#last (content h)#}"
      using l by simp
    moreover have "?ys ! 0 = content h ! 0" using l by (simp add: nth_butlast)
    moreover have "mset ?ys + {#last (content h)#} = mset (content h)"
      using ne by (metis append_butlast_last_id mset.simps(1) mset.simps(2) mset_append add.right_neutral add_mset_add_single)
    ultimately show ?thesis using ne False by (simp add: pop_list)
  qed
qed

lemma search_round_no_error:
  assumes "0 < size_heap (openHeap st)"
  shows "search_round closest heuristic end st \<noteq> Inl e"
proof -
  from pop_nonempty[OF assms, of "f_score (graph st)"]
  obtain h' where pop: "pop (f_score (graph st)) (openHeap st) = Inr (Some (content (openHeap st) ! 0), h')"
    by blast
  let ?cur = "content (openHeap st) ! 0"
  let ?st1 = "st\<lparr>openHeap := h', graph := close_node (graph st) ?cur\<rparr>"
  from visit_neighbors_result[of closest heuristic "end" ?cur ?st1 "neighbors (graph ?st1) ?cur"]
  obtain st' where "visit_neighbors closest heuristic end ?cur ?st1 (neighbors (graph ?st1) ?cur) = Inr st'"
    by blast
  then show ?thesis using pop by (simp add: search_round_def Let_def)
qed

lemma search_loop_no_error: "search_loop closest heuristic end st \<noteq> Some (Inl e)"
proof (induction closest heuristic "end" st rule: search_loop.induct)
  case (1 closest heuristic "end" st)
  show ?case
  proof (cases "0 < size_heap (openHeap st)")
    case False
    then show ?thesis by (subst search_loop.simps) auto
  next
    case True
    show ?thesis
    proof (cases "search_round closest heuristic end st")
      case (Inl e')
      with search_round_no_error[OF True] show ?thesis by blast
    next
      case (Inr r)
      show ?thesis
      proof (cases r)
        case (Inl found)
        with Inr True show ?thesis
          by (subst search_loop.simps) (auto split: prod.splits)
      next
        case (Inr st')
        with \<open>search_round closest heuristic end st = Inr r\<close> True "1.IH"[of r st'] show ?thesis
          by (subst search_loop.simps) simp
      qed
    qed
  qed
qed

lemma search_init_result:
  "search_init g start end heuristic =
     Inr \<lparr>graph = (cleanDirty g)\<lparr>nodeState := (nodeState (cleanDirty g))(start :=
                      (nodeState (cleanDirty g) start)\<lparr>node_h := heuristic (pos_of start) (pos_of end)\<rparr>),
                    dirtyNodes := [start]\<rparr>,
          openHeap = \<lparr>content = [start], content_m1 = None\<rparr>,
          closestNode = start\<rparr>"
  by (simp add: search_init_def Let_def push_list new_BinaryHeap_def markDirty_def cleanDirty_def
        sink_list.simps)

lemma search_no_error: "search g start end closest heuristic \<noteq> Some (Inl e)"
  by (simp add: search_def Let_def search_init_result search_loop_no_error)

text \<open>
  Claim C3 (as amended). \<^verbatim>\<open>pop\<close> has no guard: on an empty heap it raises nothing, returns
  \<^verbatim>\<open>undefined\<close> and leaves the heap empty. On a heap that is not empty it returns the node
  at the root. \<^verbatim>\<open>search\<close> calls \<^verbatim>\<open>pop\<close> only after the test \<^verbatim>\<open>openHeap.size() > 0\<close>, and no
  call of \<^verbatim>\<open>search\<close> ends in an exception; in particular the \<^verbatim>\<open>TypeError\<close> that writing
  \<^verbatim>\<open>closed\<close> on an \<^verbatim>\<open>undefined\<close> current node would raise never occurs.
\<close>

theorem pop_unguarded_search_pops_nonempty:
  "(size_heap h0 = 0 \<longrightarrow> pop sc h0 = Inr (None, h0)) \<and>
   (0 < size_heap h1 \<longrightarrow> (\<exists>h'. pop sc h1 = Inr (Some (content h1 ! 0), h'))) \<and>
   search g start end closest heuristic \<noteq> Some (Inl e)"
  using pop_nonempty[of h1 sc] by (auto simp: search_no_error pop_list size_heap_def)

theorem pop_unguarded_search_pops_nonempty_witness:
  "pop node_w (new_BinaryHeap :: GridNode BinaryHeap) = Inr (None, new_BinaryHeap) \<and>
   (\<exists>h'. pop node_w \<lparr>content = [\<lparr>node_x = 0, node_y = 0, node_w = 1\<rparr>], content_m1 = None\<rparr>
            = Inr (Some \<lparr>node_x = 0, node_y = 0, node_w = 1\<rparr>, h')) \<and>
   search (new_Graph [[1, 1]] False) \<lparr>node_x = 0, node_y = 0, node_w = 1\<rparr>
      \<lparr>node_x = 0, node_y = 1, node_w = 1\<rparr> False None \<noteq> Some (Inl TypeError)"
  using pop_unguarded_search_pops_nonempty[of "new_BinaryHeap :: GridNode BinaryHeap" node_w
      "\<lparr>content = [\<lparr>node_x = 0, node_y = 0, node_w = 1\<rparr>], content_m1 = None\<rparr>"
      "new_Graph [[1, 1]] False" "\<lparr>node_x = 0, node_y = 0, node_w = 1\<rparr>"
      "\<lparr>node_x = 0, node_y = 1, node_w = 1\<rparr>" False None TypeError]
  by (auto simp: size_heap_def new_BinaryHeap_def)

theorem pop_on_empty_heap_returns:
  "pop (f_score (new_Graph [[1]] False)) new_BinaryHeap = Inr (None, new_BinaryHeap)"
  by (simp add: pop_list new_BinaryHeap_def)

lemma baseline_clean_state: "baseline s \<longleftrightarrow> s = clean_state"
  by (cases s) (auto simp: baseline_def clean_state_def)

lemma cleanDirty_baseline:
  assumes "\<forall>n \<in> set (dirtyNodes g). baseline (nodeState g n)"
  shows "nodeState (cleanDirty g) = nodeState g"
proof
  fix n
  show "nodeState (cleanDirty g) n = nodeState g n"
    using assms by (auto simp: cleanDirty_def nodeState_foldl_cleanNode baseline_clean_state)
qed

lemma pathTo_no_parent: "parent (nodeState g n) = None \<Longrightarrow> pathTo g n = Some []"
  by (simp add: pathTo_def pathTo_loop.simps)

lemma search_same_node:
  fixes g :: Graph and s :: GridNode and heuristic :: "(pos \<Rightarrow> pos \<Rightarrow> real) option"
  defines "h \<equiv> (case heuristic of None \<Rightarrow> manhattan | Some h \<Rightarrow> h)"
  defines "st0 \<equiv> \<lparr>graph = g\<lparr>nodeState := (nodeState g)(s :=
                       (nodeState g s)\<lparr>node_h := h (pos_of s) (pos_of s)\<rparr>),
                     dirtyNodes := [s]\<rparr>,
                   openHeap = \<lparr>content = [s], content_m1 = None\<rparr>,
                   closestNode = s\<rparr>"
  assumes base: "\<forall>n \<in> set (dirtyNodes g) \<union> {s}. baseline (nodeState g n)"
  shows "search_init g s s h = Inr st0"
    and "search_round closest h s st0 = Inr (Inl (s, st0\<lparr>openHeap := \<lparr>content = [], content_m1 = None\<rparr>\<rparr>))"
    and "search g s s closest heuristic =
           Some (Inr ([], st0\<lparr>openHeap := \<lparr>content = [], content_m1 = None\<rparr>\<rparr>))"
proof -
  have cd: "nodeState (cleanDirty g) = nodeState g" using base by (intro cleanDirty_baseline) simp
  have "(\<lambda>n. if n \<in> set (dirtyNodes g) then clean_state else nodeState g n) = nodeState g"
    using base by (auto simp: baseline_clean_state)
  then have cg: "cleanDirty g = g\<lparr>dirtyNodes := []\<rparr>"
    by (simp add: cleanDirty_def foldl_cleanNode_eq)
  show init: "search_init g s s h = Inr st0"
    by (simp add: search_init_result st0_def cd) (simp add: cg)
  show round: "search_round closest h s st0 =
      Inr (Inl (s, st0\<lparr>openHeap := \<lparr>content = [], content_m1 = None\<rparr>\<rparr>))"
    by (simp add: search_round_def pop_list st0_def)
  have "parent (nodeState (graph st0) s) = None"
    using base by (simp add: st0_def baseline_def)
  then have "pathTo (graph (st0\<lparr>openHeap := \<lparr>content = [], content_m1 = None\<rparr>\<rparr>)) s = Some []"
    by (simp add: pathTo_no_parent)
  moreover have "0 < size_heap (openHeap st0)" by (simp add: st0_def size_heap_def)
  ultimately have "search_loop closest h s st0 =
      Some (Inr ([], st0\<lparr>openHeap := \<lparr>content = [], content_m1 = None\<rparr>\<rparr>))"
    using round by (subst search_loop.simps) simp
  then show "search g s s closest heuristic =
           Some (Inr ([], st0\<lparr>openHeap := \<lparr>content = [], content_m1 = None\<rparr>\<rparr>))"
    using init by (simp add: search_def h_def)
qed

text \<open>
  Claim C8. When the nodes in the dirty list and the node \<open>s\<close> are at baseline,
  \<^verbatim>\<open>search(graph, s, s)\<close> enters the loop with only \<open>s\<close> in the heap, the first round pops
  \<open>s\<close> and returns at once, and the result is the empty path. In the final state the heap
  is empty, the dirty list holds \<open>s\<close> alone and the store differs from the one before the
  call only in the field \<^verbatim>\<open>h\<close> of \<open>s\<close>: no neighbour was touched or pushed.
\<close>

theorem search_start_equals_end:
  fixes g :: Graph and s :: GridNode and heuristic :: "(pos \<Rightarrow> pos \<Rightarrow> real) option"
  defines "h \<equiv> (case heuristic of None \<Rightarrow> manhattan | Some h \<Rightarrow> h)"
  defines "st0 \<equiv> \<lparr>graph = g\<lparr>nodeState := (nodeState g)(s :=
                       (nodeState g s)\<lparr>node_h := h (pos_of s) (pos_of s)\<rparr>),
                     dirtyNodes := [s]\<rparr>,
                   openHeap = \<lparr>content = [s], content_m1 = None\<rparr>,
                   closestNode = s\<rparr>"
  assumes "\<forall>n \<in> set (dirtyNodes g) \<union> {s}. baseline (nodeState g n)"
  shows "search_init g s s h = Inr st0 \<and>
         search_round closest h s st0 =
           Inr (Inl (s, st0\<lparr>openHeap := \<lparr>content = [], content_m1 = None\<rparr>\<rparr>)) \<and>
         search g s s closest heuristic =
           Some (Inr ([], st0\<lparr>openHeap := \<lparr>content = [], content_m1 = None\<rparr>\<rparr>))"
  unfolding h_def st0_def using search_same_node[OF assms(3)] by simp

theorem search_start_equals_end_witness:
  "(let s = \<lparr>node_x = 1, node_y = 1, node_w = 1\<rparr>;
        g = new_Graph [[1, 1], [1, 1]] True
    in search g s s False None =
         Some (Inr ([], \<lparr>graph = g\<lparr>nodeState := (nodeState g)(s := (nodeState g s)\<lparr>node_h := 0\<rparr>),
                                  dirtyNodes := [s]\<rparr>,
                         openHeap = \<lparr>content = [], content_m1 = None\<rparr>,
                         closestNode = s\<rparr>)))"
proof -
  let ?s = "\<lparr>node_x = 1, node_y = 1, node_w = 1\<rparr>"
  let ?g = "new_Graph [[1, 1], [1, 1]] True"
  have d: "dirtyNodes ?g = []" "nodeState ?g ?s = clean_state"
    by simp_all
  have "\<forall>n \<in> set (dirtyNodes ?g) \<union> {?s}. baseline (nodeState ?g n)"
    by (simp add: d baseline_clean_state)
  from search_start_equals_end[OF this, of None False]
  show ?thesis by (simp add: Let_def manhattan_def pos_of_def)
qed

subsection \<open>Rules for running \<^verbatim>\<open>search\<close> on a given grid\<close>

lemmas search_eval = search_def search_init_def search_loop.simps search_round_def
  visit_neighbors.simps visit_neighbor_def update_neighbor_def update_closest_def close_node_def
  f_score_def size_heap_def pathTo_def pathTo_loop.simps
  neighbors_def push_cell_def grid_at_def isNodeWall_def getNodeCost_def pos_of_def manhattan_def
  new_Graph_def init_def make_row_def cleanNode_def cleanDirty_def markDirty_def clean_state_def

section \<open>Paths in the grid\<close>

text \<open>A path is the list of nodes after its first node, as \<^verbatim>\<open>search\<close> returns it. Each step
  goes to a neighbour that is not a wall and costs what \<^verbatim>\<open>getNodeCost\<close> says.\<close>

fun valid_path :: "Graph \<Rightarrow> GridNode \<Rightarrow> GridNode list \<Rightarrow> bool" where
  "valid_path g n [] = True"
| "valid_path g n (m # ms) = (m \<in> set (neighbors g n) \<and> \<not> isNodeWall m \<and> valid_path g m ms)"

fun path_cost :: "GridNode \<Rightarrow> GridNode list \<Rightarrow> real" where
  "path_cost n [] = 0"
| "path_cost n (m # ms) = getNodeCost m (Some n) + path_cost m ms"

definition grid_nodes :: "Graph \<Rightarrow> GridNode set" where
  "grid_nodes g = set (concat (grid g))"

definition consistent :: "Graph \<Rightarrow> (pos \<Rightarrow> pos \<Rightarrow> real) \<Rightarrow> GridNode \<Rightarrow> bool" where
  "consistent g heuristic end =
     (\<forall>n \<in> grid_nodes g. \<forall>m \<in> set (neighbors g n). \<not> isNodeWall m \<longrightarrow>
        heuristic (pos_of n) (pos_of end)
          \<le> getNodeCost m (Some n) + heuristic (pos_of m) (pos_of end))"


definition clean_outside_dirty :: "Graph \<Rightarrow> bool" where
  "clean_outside_dirty g =
     (\<forall>n \<in> grid_nodes g. n \<notin> set (dirtyNodes g) \<longrightarrow> nodeState g n = clean_state)"

lemma valid_path_append:
  "valid_path g n (p @ q) \<longleftrightarrow> valid_path g n p \<and> valid_path g (last (n # p)) q"
  by (induction p arbitrary: n) auto

lemma path_cost_append:
  "path_cost n (p @ q) = path_cost n p + path_cost (last (n # p)) q"
  by (induction p arbitrary: n) auto

lemma neighbors_grid_nodes: "m \<in> set (neighbors g n) \<Longrightarrow> m \<in> grid_nodes g"
  using neighbors_in_grid[of g n] unfolding grid_nodes_def by blast



lemma valid_path_cong:
  "grid g' = grid g \<Longrightarrow> diagonal g' = diagonal g \<Longrightarrow> valid_path g' n p = valid_path g n p"
  by (induction p arbitrary: n) (auto simp: neighbors_def)

lemma neighbors_cong:
  "grid g' = grid g \<Longrightarrow> diagonal g' = diagonal g \<Longrightarrow> neighbors g' n = neighbors g n"
  by (simp add: neighbors_def)

lemma consistent_path:
  assumes "consistent g heuristic end" "n \<in> grid_nodes g" "valid_path g n p"
  shows "heuristic (pos_of n) (pos_of end)
           \<le> path_cost n p + heuristic (pos_of (last (n # p))) (pos_of end)"
  using assms(2,3)
proof (induction p arbitrary: n)
  case Nil
  then show ?case by simp
next
  case (Cons m ms)
  then have m: "m \<in> set (neighbors g n)" "\<not> isNodeWall m" "valid_path g m ms" by auto
  then have mg: "m \<in> grid_nodes g" by (auto dest: neighbors_grid_nodes)
  have "heuristic (pos_of n) (pos_of end) \<le> getNodeCost m (Some n) + heuristic (pos_of m) (pos_of end)"
    using assms(1) Cons.prems(1) m by (auto simp: consistent_def)
  also have "heuristic (pos_of m) (pos_of end)
       \<le> path_cost m ms + heuristic (pos_of (last (m # ms))) (pos_of end)"
    by (rule Cons.IH[OF mg m(3)])
  finally show ?case by simp
qed

section \<open>The tree of \<^verbatim>\<open>parent\<close> references\<close>

text \<open>\<open>tree_path g start n p\<close>: following the \<^verbatim>\<open>parent\<close> references from \<open>n\<close> leads to
  \<open>start\<close> through closed nodes; \<open>p\<close> lists the nodes met, from the one after \<open>start\<close> up to
  \<open>n\<close>; every step is a step of the grid, and \<^verbatim>\<open>g\<close> adds up the step costs.\<close>

inductive tree_path :: "Graph \<Rightarrow> GridNode \<Rightarrow> GridNode \<Rightarrow> GridNode list \<Rightarrow> bool"
  for g :: Graph and start :: GridNode where
  root: "parent (nodeState g start) = None \<Longrightarrow> node_g (nodeState g start) = 0 \<Longrightarrow>
         tree_path g start start []"
| step: "tree_path g start u p \<Longrightarrow> closed (nodeState g u) \<Longrightarrow>
         parent (nodeState g n) = Some u \<Longrightarrow> n \<in> set (neighbors g u) \<Longrightarrow> \<not> isNodeWall n \<Longrightarrow>
         node_g (nodeState g n) = node_g (nodeState g u) + getNodeCost n (Some u) \<Longrightarrow>
         tree_path g start n (p @ [n])"

lemma tree_path_valid:
  "tree_path g start n p \<Longrightarrow>
     valid_path g start p \<and> last (start # p) = n \<and> path_cost start p = node_g (nodeState g n)"
  by (induction rule: tree_path.induct) (auto simp: valid_path_append path_cost_append)

lemma tree_path_pathTo_loop:
  "tree_path g start n p \<Longrightarrow> pathTo_loop g n acc = Some (p @ acc)"
proof (induction arbitrary: acc rule: tree_path.induct)
  case root
  then show ?case by (subst pathTo_loop.simps) simp
next
  case (step u p n)
  then show ?case by (subst pathTo_loop.simps) simp
qed

lemma tree_path_pathTo: "tree_path g start n p \<Longrightarrow> pathTo g n = Some p"
  using tree_path_pathTo_loop[of g start n p "[]"] by (simp add: pathTo_def)

lemma tree_path_frame:
  assumes "tree_path g start n p"
    and same: "\<And>x. x \<noteq> nb \<Longrightarrow> nodeState g' x = nodeState g x"
    and "\<not> closed (nodeState g nb)" and "n \<noteq> nb"
    and "grid g' = grid g" "diagonal g' = diagonal g"
  shows "tree_path g' start n p"
  using assms(1,4)
proof (induction rule: tree_path.induct)
  case root
  then show ?case using same by (auto intro: tree_path.root)
next
  case (step u p n)
  from step.hyps(2) assms(3) have "u \<noteq> nb" by auto
  with step have "tree_path g' start u p" by simp
  moreover have "nodeState g' u = nodeState g u" "nodeState g' n = nodeState g n"
    using same \<open>u \<noteq> nb\<close> step.prems by auto
  moreover have "neighbors g' u = neighbors g u" using assms(5,6) by (rule neighbors_cong)
  ultimately show ?case using step.hyps by (auto intro: tree_path.step)
qed

lemma tree_path_close_node:
  assumes "tree_path g start n p"
  shows "tree_path (close_node g c) start n p"
  using assms
proof (induction rule: tree_path.induct)
  case root
  then show ?case by (auto intro!: tree_path.root)
next
  case (step u p n)
  then show ?case by (auto intro!: tree_path.step)
qed

section \<open>Invariants of the search loop\<close>

lemma heap_root_min_index:
  assumes "heap_inv sc xs"
  shows "i < length xs \<Longrightarrow> sc (xs ! 0) \<le> sc (xs ! i)"
proof (induction i rule: less_induct)
  case (less i)
  show ?case
  proof (cases "i = 0")
    case True
    then show ?thesis by simp
  next
    case False
    then have p: "parent_index i < i" by (simp add: parent_index_less)
    then have "sc (xs ! 0) \<le> sc (xs ! parent_index i)" using less by simp
    moreover have "sc (xs ! parent_index i) \<le> sc (xs ! i)"
      using assms False less.prems by (simp add: heap_inv_def)
    ultimately show ?thesis by simp
  qed
qed

lemma heap_root_min: "heap_inv sc xs \<Longrightarrow> x \<in> set xs \<Longrightarrow> sc (xs ! 0) \<le> sc x"
  by (metis heap_root_min_index in_set_conv_nth)

definition heap_ok :: "Graph \<Rightarrow> SearchState \<Rightarrow> bool" where
  "heap_ok g0 st =
     (distinct (content (openHeap st)) \<and>
      set (content (openHeap st)) =
        {n \<in> grid_nodes g0. visited (nodeState (graph st) n) \<and> \<not> closed (nodeState (graph st) n)} \<and>
      heap_inv (f_score (graph st)) (content (openHeap st)))"

definition start_ok :: "GridNode \<Rightarrow> SearchState \<Rightarrow> bool" where
  "start_ok start st =
     (closed (nodeState (graph st) start) \<and> \<not> visited (nodeState (graph st) start) \<and>
      parent (nodeState (graph st) start) = None \<and> node_g (nodeState (graph st) start) = 0)"

definition h_ok :: "Graph \<Rightarrow> (pos \<Rightarrow> pos \<Rightarrow> real) \<Rightarrow> GridNode \<Rightarrow> SearchState \<Rightarrow> bool" where
  "h_ok g0 heuristic end st =
     (\<forall>n \<in> grid_nodes g0. node_h (nodeState (graph st) n) = 0 \<or>
        node_h (nodeState (graph st) n) = heuristic (pos_of n) (pos_of end))"

definition visited_ok ::
  "Graph \<Rightarrow> GridNode \<Rightarrow> (pos \<Rightarrow> pos \<Rightarrow> real) \<Rightarrow> GridNode \<Rightarrow> SearchState \<Rightarrow> bool" where
  "visited_ok g0 start heuristic end st =
     (\<forall>n \<in> grid_nodes g0. visited (nodeState (graph st) n) \<longrightarrow>
        node_h (nodeState (graph st) n) = heuristic (pos_of n) (pos_of end) \<and>
        node_f (nodeState (graph st) n) =
          node_g (nodeState (graph st) n) + node_h (nodeState (graph st) n) \<and>
        (\<exists>p. tree_path (graph st) start n p))"

definition closed_ok :: "Graph \<Rightarrow> GridNode \<Rightarrow> SearchState \<Rightarrow> bool" where
  "closed_ok g0 start st =
     (\<forall>n \<in> grid_nodes g0. closed (nodeState (graph st) n) \<longrightarrow>
        n = start \<or> visited (nodeState (graph st) n))"

definition edges_ok :: "Graph \<Rightarrow> GridNode \<Rightarrow> GridNode set \<Rightarrow> SearchState \<Rightarrow> bool" where
  "edges_ok g0 cur R st =
     (\<forall>u \<in> grid_nodes g0. closed (nodeState (graph st) u) \<longrightarrow>
        (\<forall>m \<in> set (neighbors g0 u). \<not> isNodeWall m \<longrightarrow>
           (u = cur \<and> m \<in> R) \<or> closed (nodeState (graph st) m) \<or>
           (visited (nodeState (graph st) m) \<and>
            node_g (nodeState (graph st) m)
              \<le> node_g (nodeState (graph st) u) + getNodeCost m (Some u))))"

definition closest_ok :: "Graph \<Rightarrow> GridNode \<Rightarrow> SearchState \<Rightarrow> bool" where
  "closest_ok g0 start st =
     (closestNode st = start \<or>
      (closestNode st \<in> grid_nodes g0 \<and> visited (nodeState (graph st) (closestNode st)) \<and>
       closer (graph st) (closestNode st) start))"

definition struct_inv ::
  "Graph \<Rightarrow> GridNode \<Rightarrow> GridNode \<Rightarrow> (pos \<Rightarrow> pos \<Rightarrow> real) \<Rightarrow> GridNode \<Rightarrow> GridNode set
     \<Rightarrow> SearchState \<Rightarrow> bool" where
  "struct_inv g0 start end heuristic cur R st =
     (grid (graph st) = grid g0 \<and> diagonal (graph st) = diagonal g0 \<and>
      start \<in> grid_nodes g0 \<and>
      (end \<in> grid_nodes g0 \<longrightarrow> \<not> closed (nodeState (graph st) end)) \<and>
      heap_ok g0 st \<and> start_ok start st \<and> h_ok g0 heuristic end st \<and>
      visited_ok g0 start heuristic end st \<and> closed_ok g0 start st \<and>
      edges_ok g0 cur R st \<and> closest_ok g0 start st)"

definition opt_inv :: "Graph \<Rightarrow> GridNode \<Rightarrow> SearchState \<Rightarrow> bool" where
  "opt_inv g0 start st =
     (\<forall>n \<in> grid_nodes g0. closed (nodeState (graph st) n) \<longrightarrow>
        (\<forall>p. valid_path g0 start p \<and> last (start # p) = n \<longrightarrow>
             node_g (nodeState (graph st) n) \<le> path_cost start p))"

lemma edges_ok_mono: "edges_ok g0 cur R st \<Longrightarrow> R \<subseteq> R' \<Longrightarrow> edges_ok g0 cur R' st"
  unfolding edges_ok_def by blast

lemma closer_trans: "closer g a b \<Longrightarrow> closer g b c \<Longrightarrow> closer g a c"
  by (auto simp: closer_def)

lemma f_score_relaxed_graph:
  "f_score (relaxed_graph heuristic end cur g nb) x =
     (if x = nb then tentative_g g cur nb + cached_h heuristic end g nb else f_score g x)"
  by (simp add: f_score_def)

subsection \<open>Visiting a neighbour keeps the invariants\<close>

lemma closed_has_tree_path:
  assumes "start_ok start st" "visited_ok g0 start heuristic end st" "closed_ok g0 start st"
    and "u \<in> grid_nodes g0" "closed (nodeState (graph st) u)"
  shows "\<exists>p. tree_path (graph st) start u p"
proof (cases "u = start")
  case True
  then show ?thesis using assms(1) by (auto simp: start_ok_def intro: tree_path.root)
next
  case False
  then have "visited (nodeState (graph st) u)" using assms(3,4,5) by (auto simp: closed_ok_def)
  then show ?thesis using assms(2,4) by (auto simp: visited_ok_def)
qed

lemma visit_neighbor_struct_inv:
  assumes inv: "struct_inv g0 start end heuristic cur R st"
    and cur: "cur \<in> grid_nodes g0" "closed (nodeState (graph st) cur)"
    and nb: "nb \<in> set (neighbors g0 cur)"
    and v: "visit_neighbor closest heuristic end cur st nb = Inr st'"
  shows "struct_inv g0 start end heuristic cur (R - {nb}) st'"
proof -
  let ?G = "graph st"
  let ?S = "nodeState ?G"
  let ?H = "content (openHeap st)"
  from inv have grid: "grid ?G = grid g0" "diagonal ?G = diagonal g0"
    and start: "start \<in> grid_nodes g0"
    and endc: "end \<in> grid_nodes g0 \<longrightarrow> \<not> closed (?S end)"
    and heap: "heap_ok g0 st" and sok: "start_ok start st" and hok: "h_ok g0 heuristic end st"
    and vok: "visited_ok g0 start heuristic end st" and cok: "closed_ok g0 start st"
    and eok: "edges_ok g0 cur R st" and clo: "closest_ok g0 start st"
    by (auto simp: struct_inv_def)
  have nbg: "nb \<in> grid_nodes g0" using nb by (rule neighbors_grid_nodes)
  have nbrs: "\<And>n. neighbors ?G n = neighbors g0 n" using grid by (intro neighbors_cong)
  show ?thesis
  proof (cases "relaxes ?G cur nb")
    case False
    then have st': "st' = st" using v by (simp add: visit_neighbor_skip)
    have "edges_ok g0 cur (R - {nb}) st"
      unfolding edges_ok_def
    proof (intro ballI impI)
      fix u m assume u: "u \<in> grid_nodes g0" "closed (?S u)" and m: "m \<in> set (neighbors g0 u)" "\<not> isNodeWall m"
      from eok u m have old: "(u = cur \<and> m \<in> R) \<or> closed (?S m) \<or>
           (visited (?S m) \<and> node_g (?S m) \<le> node_g (?S u) + getNodeCost m (Some u))"
        by (auto simp: edges_ok_def)
      show "(u = cur \<and> m \<in> R - {nb}) \<or> closed (?S m) \<or>
           (visited (?S m) \<and> node_g (?S m) \<le> node_g (?S u) + getNodeCost m (Some u))"
      proof (cases "u = cur \<and> m = nb")
        case True
        with False m show ?thesis by (auto simp: relaxes_def tentative_g_def)
      next
        case False
        with old show ?thesis by auto
      qed
    qed
    with inv show ?thesis unfolding st' by (simp add: struct_inv_def)
  next
    case True
    let ?G' = "relaxed_graph heuristic end cur ?G nb"
    let ?S' = "nodeState ?G'"
    note r = True
    from r have nbc: "\<not> closed (?S nb)" and nbw: "\<not> isNodeWall nb"
      and imp: "\<not> visited (?S nb) \<or> tentative_g ?G cur nb < node_g (?S nb)"
      by (auto simp: relaxes_def)
    note st' = v[unfolded visit_neighbor_relax[OF r]]
    from st' have g': "graph st' = ?G'" by auto
    have ch: "cached_h heuristic end ?G nb = heuristic (pos_of nb) (pos_of end)"
      using hok nbg by (auto simp: h_ok_def cached_h_def)
    have nbstart: "nb \<noteq> start" using sok nbc by (auto simp: start_ok_def)
    have nbcur: "nb \<noteq> cur" using cur nbc by auto
    have other [simp]: "\<And>x. x \<noteq> nb \<Longrightarrow> ?S' x = ?S x" by simp
    have S'nb [simp]: "?S' nb = relaxed_state heuristic end cur ?G nb" by simp
    have tg: "tentative_g ?G cur nb = node_g (?S cur) + getNodeCost nb (Some cur)"
      by (simp add: tentative_g_def)
    have vis' [simp]: "\<And>x. visited (?S' x) \<longleftrightarrow> x = nb \<or> visited (?S x)" by simp
    have clo' [simp]: "\<And>x. closed (?S' x) \<longleftrightarrow> closed (?S x)" by simp
    have fields' [simp]:
      "\<And>x. node_h (?S' x) = (if x = nb then cached_h heuristic end ?G nb else node_h (?S x))"
      "\<And>x. node_g (?S' x) = (if x = nb then tentative_g ?G cur nb else node_g (?S x))"
      "\<And>x. node_f (?S' x) =
         (if x = nb then tentative_g ?G cur nb + cached_h heuristic end ?G nb else node_f (?S x))"
      "\<And>x. parent (?S' x) = (if x = nb then Some cur else parent (?S x))"
      by simp_all
    note [simp del] = relaxed_graph_simps(5)
    \<comment> \<open>the parent tree\<close>
    have frame: "\<And>n p. tree_path ?G start n p \<Longrightarrow> n \<noteq> nb \<Longrightarrow> tree_path ?G' start n p"
      using nbc by (rule_tac tree_path_frame[where g = ?G and nb = nb]) simp_all
    from closed_has_tree_path[OF sok vok cok cur] obtain pc where pc: "tree_path ?G start cur pc" by blast
    have tnb: "tree_path ?G' start nb (pc @ [nb])"
    proof (rule tree_path.step)
      show "tree_path ?G' start cur pc" using frame[OF pc] nbcur by simp
      show "closed (?S' cur)" using cur nbcur by simp
      show "parent (?S' nb) = Some cur" by simp
      show "nb \<in> set (neighbors ?G' cur)" using nb nbrs by simp
      show "\<not> isNodeWall nb" by (rule nbw)
      show "node_g (?S' nb) = node_g (?S' cur) + getNodeCost nb (Some cur)"
        using nbcur by (simp add: tg)
    qed
    have c1: "end \<in> grid_nodes g0 \<longrightarrow> \<not> closed (nodeState (graph st') end)"
      using endc by (simp add: g')
    have c2: "start_ok start st'" using sok nbstart by (simp add: start_ok_def g')
    have c3: "h_ok g0 heuristic end st'"
      using hok ch by (auto simp: h_ok_def g')
    have c4: "visited_ok g0 start heuristic end st'"
      unfolding visited_ok_def g'
    proof (intro ballI impI)
      fix n assume n: "n \<in> grid_nodes g0" "visited (?S' n)"
      show "node_h (?S' n) = heuristic (pos_of n) (pos_of end) \<and>
            node_f (?S' n) = node_g (?S' n) + node_h (?S' n) \<and> (\<exists>p. tree_path ?G' start n p)"
      proof (cases "n = nb")
        case True
        then show ?thesis using tnb ch by auto
      next
        case False
        with n have "visited (?S n)" by simp
        with vok n(1) have "node_h (?S n) = heuristic (pos_of n) (pos_of end)"
          "node_f (?S n) = node_g (?S n) + node_h (?S n)" "\<exists>p. tree_path ?G start n p"
          by (auto simp: visited_ok_def)
        then show ?thesis using False frame by auto
      qed
    qed
    have c5: "closed_ok g0 start st'" using cok by (auto simp: closed_ok_def g')
    have c6: "edges_ok g0 cur (R - {nb}) st'"
      unfolding edges_ok_def g'
    proof (intro ballI impI)
      fix u m assume u: "u \<in> grid_nodes g0" "closed (?S' u)" and m: "m \<in> set (neighbors g0 u)" "\<not> isNodeWall m"
      from u have uc: "closed (?S u)" "u \<noteq> nb" using nbc by auto
      from eok u(1) uc(1) m have old: "(u = cur \<and> m \<in> R) \<or> closed (?S m) \<or>
           (visited (?S m) \<and> node_g (?S m) \<le> node_g (?S u) + getNodeCost m (Some u))"
        by (auto simp: edges_ok_def)
      show "(u = cur \<and> m \<in> R - {nb}) \<or> closed (?S' m) \<or>
           (visited (?S' m) \<and> node_g (?S' m) \<le> node_g (?S' u) + getNodeCost m (Some u))"
      proof (cases "m = nb")
        case False
        with old uc show ?thesis by auto
      next
        case True
        show ?thesis
        proof (cases "u = cur")
          case True
          with \<open>m = nb\<close> nbcur show ?thesis by (simp add: tg)
        next
          case False
          with old True nbc have ov: "visited (?S nb)" "node_g (?S nb) \<le> node_g (?S u) + getNodeCost nb (Some u)"
            by auto
          with imp have "tentative_g ?G cur nb < node_g (?S nb)" by simp
          with ov True uc show ?thesis by simp
        qed
      qed
    qed
    have closer_nb: "closer ?G nb start \<Longrightarrow> visited (?S nb) \<Longrightarrow> closer ?G' nb start"
    proof -
      assume a: "closer ?G nb start" "visited (?S nb)"
      then have "tentative_g ?G cur nb < node_g (?S nb)" using imp by simp
      moreover have "node_h (?S nb) = heuristic (pos_of nb) (pos_of end)"
        using vok nbg a(2) by (auto simp: visited_ok_def)
      ultimately show ?thesis using a(1) nbstart ch by (auto simp: closer_def)
    qed
    have closer_other: "\<And>c. c \<noteq> nb \<Longrightarrow> closer ?G c start \<Longrightarrow> closer ?G' c start"
      using nbstart by (simp add: closer_def)
    have old_closest: "closestNode st = start \<or> closer ?G' (closestNode st) start"
      using clo closer_nb closer_other by (cases "closestNode st = nb") (auto simp: closest_ok_def)
    have c7: "closest_ok g0 start st'"
    proof (cases "closest \<and> closer ?G' nb (closestNode st)")
      case True
      then have cn: "closestNode st' = nb" using st' by auto
      from True old_closest have "closer ?G' nb start"
        by (auto intro: closer_trans)
      then show ?thesis using nbg by (simp add: closest_ok_def cn g')
    next
      case False
      then have cn: "closestNode st' = closestNode st" using st' by auto
      show ?thesis using clo old_closest by (auto simp: closest_ok_def cn g')
    qed
    have c8: "heap_ok g0 st'"
    proof (cases "visited (?S nb)")
      case False
      then have nbH: "nb \<notin> set ?H" using heap by (auto simp: heap_ok_def)
      from st' False have H': "content (openHeap st') =
          sink_list (f_score ?G') (?H @ [nb]) (length ?H)" by auto
      have "\<forall>x\<in>set ?H. f_score ?G' x = f_score ?G x"
        using nbH by (auto simp: f_score_relaxed_graph)
      then have "heap_inv (f_score ?G') ?H"
        using heap heap_inv_cong[of ?H "f_score ?G'" "f_score ?G"] by (simp add: heap_ok_def)
      then have "heap_inv (f_score ?G') (content (openHeap st'))"
        unfolding H' by (intro sink_list_heap heap_inv_push) simp_all
      moreover have m: "mset (content (openHeap st')) = mset (?H @ [nb])" unfolding H' by simp
      have "distinct (content (openHeap st')) = distinct (?H @ [nb])"
        using m by (rule mset_eq_imp_distinct_iff)
      then have "distinct (content (openHeap st'))" using heap nbH by (simp add: heap_ok_def)
      moreover have "set (content (openHeap st')) = set (?H @ [nb])" using m by (rule mset_eq_setD)
      then have "set (content (openHeap st')) = set ?H \<union> {nb}" by simp
      moreover have "set ?H \<union> {nb} = {n \<in> grid_nodes g0. visited (?S' n) \<and> \<not> closed (?S' n)}"
        using heap nbg nbc by (auto simp: heap_ok_def)
      ultimately show ?thesis by (simp add: heap_ok_def g')
    next
      case True
      then have nbH: "nb \<in> set ?H" using heap nbg nbc by (auto simp: heap_ok_def)
      let ?i = "nat (indexOf ?H nb)"
      from indexOf_present[OF nbH] have i: "?i < length ?H" "?H ! ?i = nb" by auto
      from st' True nbH have H': "content (openHeap st') = sink_list (f_score ?G') ?H ?i" by auto
      have dist: "distinct ?H" using heap by (simp add: heap_ok_def)
      have fdec: "f_score ?G' nb \<le> f_score ?G nb"
      proof -
        have "node_h (?S nb) = heuristic (pos_of nb) (pos_of end)"
          "node_f (?S nb) = node_g (?S nb) + node_h (?S nb)"
          using vok nbg True by (auto simp: visited_ok_def)
        moreover have "tentative_g ?G cur nb < node_g (?S nb)" using imp True by simp
        ultimately show ?thesis by (simp add: f_score_relaxed_graph ch) (simp add: f_score_def)
      qed
      have "heap_except_up (f_score ?G') ?H ?i"
      proof (rule heap_except_up_decrease[where sc = "f_score ?G"])
        show "heap_inv (f_score ?G) ?H" using heap by (simp add: heap_ok_def)
        show "?i < length ?H" by (rule i)
        show "f_score ?G' (?H ! ?i) \<le> f_score ?G (?H ! ?i)" using fdec i by simp
        fix j assume "j < length ?H" "j \<noteq> ?i"
        then have "?H ! j \<noteq> nb" using dist i by (metis nth_eq_iff_index_eq)
        then show "f_score ?G' (?H ! j) = f_score ?G (?H ! j)" by (simp add: f_score_relaxed_graph)
      qed
      then have "heap_inv (f_score ?G') (content (openHeap st'))"
        unfolding H' using i by (intro sink_list_heap)
      moreover have m: "mset (content (openHeap st')) = mset ?H" unfolding H' by simp
      have "distinct (content (openHeap st')) = distinct ?H" using m by (rule mset_eq_imp_distinct_iff)
      then have "distinct (content (openHeap st'))" using dist by simp
      moreover have "set (content (openHeap st')) = set ?H" using m by (rule mset_eq_setD)
      moreover have "set ?H = {n \<in> grid_nodes g0. visited (?S' n) \<and> \<not> closed (?S' n)}"
        using heap True by (auto simp: heap_ok_def)
      ultimately show ?thesis by (simp add: heap_ok_def g')
    qed
    show ?thesis
      unfolding struct_inv_def
      using grid start c1 c2 c3 c4 c5 c6 c7 c8 by (simp add: g')
  qed
qed

lemma visit_neighbor_closed:
  assumes "visit_neighbor closest heuristic end cur st nb = Inr st'"
  shows "closed (nodeState (graph st') x) = closed (nodeState (graph st) x)"
    and "closed (nodeState (graph st) x) \<Longrightarrow> nodeState (graph st') x = nodeState (graph st) x"
proof -
  have "closed (nodeState (graph st') x) = closed (nodeState (graph st) x) \<and>
        (closed (nodeState (graph st) x) \<longrightarrow> nodeState (graph st') x = nodeState (graph st) x)"
  proof (cases "relaxes (graph st) cur nb")
    case False
    then show ?thesis using assms by (simp add: visit_neighbor_skip)
  next
    case True
    then have "\<not> closed (nodeState (graph st) nb)" by (simp add: relaxes_def)
    moreover from assms have "graph st' = relaxed_graph heuristic end cur (graph st) nb"
      unfolding visit_neighbor_relax[OF True] by auto
    ultimately show ?thesis by auto
  qed
  then show "closed (nodeState (graph st') x) = closed (nodeState (graph st) x)"
    and "closed (nodeState (graph st) x) \<Longrightarrow> nodeState (graph st') x = nodeState (graph st) x"
    by auto
qed

lemma visit_neighbor_opt_inv:
  assumes "opt_inv g0 start st" "visit_neighbor closest heuristic end cur st nb = Inr st'"
  shows "opt_inv g0 start st'"
  using assms(1) visit_neighbor_closed[OF assms(2)]
  unfolding opt_inv_def by metis

lemma visit_neighbors_inv:
  assumes "struct_inv g0 start end heuristic cur R st"
    and "cur \<in> grid_nodes g0" "closed (nodeState (graph st) cur)"
    and "set ns \<subseteq> set (neighbors g0 cur)"
    and "visit_neighbors closest heuristic end cur st ns = Inr st'"
  shows "struct_inv g0 start end heuristic cur (R - set ns) st'"
  using assms(1,3,4,5)
proof (induction ns arbitrary: st R)
  case Nil
  then show ?case by simp
next
  case (Cons nb ns)
  from visit_neighbor_result[of closest heuristic "end" cur st nb]
  obtain st1 where st1: "visit_neighbor closest heuristic end cur st nb = Inr st1" by blast
  have "struct_inv g0 start end heuristic cur (R - {nb}) st1"
    using Cons.prems assms(2) st1 by (intro visit_neighbor_struct_inv[where st = st]) auto
  moreover have "closed (nodeState (graph st1) cur)"
    using visit_neighbor_closed(1)[OF st1] Cons.prems(2) by simp
  moreover have "visit_neighbors closest heuristic end cur st1 ns = Inr st'"
    using Cons.prems(4) st1 by simp
  ultimately have "struct_inv g0 start end heuristic cur (R - {nb} - set ns) st'"
    using Cons.prems(3) by (intro Cons.IH) auto
  moreover have "R - {nb} - set ns = R - set (nb # ns)" by auto
  ultimately show ?case by simp
qed

lemma visit_neighbors_opt_inv:
  assumes "opt_inv g0 start st" "visit_neighbors closest heuristic end cur st ns = Inr st'"
  shows "opt_inv g0 start st'"
  using assms
proof (induction ns arbitrary: st)
  case Nil
  then show ?case by simp
next
  case (Cons nb ns)
  from visit_neighbor_result[of closest heuristic "end" cur st nb]
  obtain st1 where st1: "visit_neighbor closest heuristic end cur st nb = Inr st1" by blast
  with Cons.prems have "opt_inv g0 start st1" "visit_neighbors closest heuristic end cur st1 ns = Inr st'"
    by (auto intro: visit_neighbor_opt_inv)
  then show ?case by (rule Cons.IH)
qed

lemma pop_spec:
  assumes "0 < size_heap h" "heap_inv sc (content h)"
  shows "\<exists>h'. pop sc h = Inr (Some (content h ! 0), h') \<and>
              mset (content h') + {#content h ! 0#} = mset (content h) \<and>
              heap_inv sc (content h')"
proof -
  from pop_nonempty[OF assms(1), of sc] obtain h' where
    h': "pop sc h = Inr (Some (content h ! 0), h')"
        "mset (content h') + {#content h ! 0#} = mset (content h)" by blast
  from pop_heap_inv[OF assms(2)] h'(1) have "heap_inv sc (content h')" by auto
  with h' show ?thesis by blast
qed

lemma search_round_unfold:
  assumes "pop (f_score (graph st)) (openHeap st) = Inr (Some cur, h1)"
  shows "search_round closest heuristic end st =
     (if cur = end then Inr (Inl (cur, st\<lparr>openHeap := h1\<rparr>))
      else bind_result
             (visit_neighbors closest heuristic end cur
                (st\<lparr>openHeap := h1, graph := close_node (graph st) cur\<rparr>)
                (neighbors (graph st) cur))
             (\<lambda>st. Inr (Inr st)))"
  using assms by (simp add: search_round_def Let_def)

lemma search_loop_rule:
  assumes "I st"
    and step: "\<And>st st'. I st \<Longrightarrow> 0 < size_heap (openHeap st) \<Longrightarrow>
                 search_round closest heuristic end st = Inr (Inr st') \<Longrightarrow> I st'"
    and found: "\<And>st cur st'. I st \<Longrightarrow> 0 < size_heap (openHeap st) \<Longrightarrow>
                 search_round closest heuristic end st = Inr (Inl (cur, st')) \<Longrightarrow>
                 Q (map_option (\<lambda>path. Inr (path, st')) (pathTo (graph st') cur))"
    and exhausted: "\<And>st. I st \<Longrightarrow> size_heap (openHeap st) = 0 \<Longrightarrow>
                 Q (if closest then map_option (\<lambda>path. Inr (path, st)) (pathTo (graph st) (closestNode st))
                    else Some (Inr ([], st)))"
  shows "Q (search_loop closest heuristic end st)"
  using assms
proof (induction closest heuristic "end" st rule: search_loop.induct)
  case (1 closest heuristic "end" st)
  note I = "1.prems"(1) and step = "1.prems"(2) and found = "1.prems"(3)
    and exhausted = "1.prems"(4)
  show ?case
  proof (cases "0 < size_heap (openHeap st)")
    case False
    then show ?thesis using exhausted[of st] I
      by (subst search_loop.simps) simp
  next
    case True
    show ?thesis
    proof (cases "search_round closest heuristic end st")
      case (Inl e)
      with search_round_no_error[OF True] show ?thesis by blast
    next
      case (Inr r)
      show ?thesis
      proof (cases r)
        case (Inl fnd)
        obtain cur st' where fnd: "fnd = (cur, st')" by (cases fnd)
        from found[OF I True] Inr Inl fnd
        have "Q (map_option (\<lambda>path. Inr (path, st')) (pathTo (graph st') cur))" by simp
        then show ?thesis using True Inr Inl fnd by (subst search_loop.simps) simp
      next
        case (Inr st')
        with \<open>search_round closest heuristic end st = Inr r\<close>
        have sr: "search_round closest heuristic end st = Inr (Inr st')" by simp
        from step[OF I True sr] have I': "I st'" .
        have "Q (search_loop closest heuristic end st')"
          by (rule "1.IH"[OF True sr[unfolded Inr[symmetric]] Inr I' step found exhausted])
        then show ?thesis using True sr by (subst search_loop.simps) simp
      qed
    qed
  qed
qed

subsection \<open>Popping the root\<close>

lemma f_score_close_node [simp]: "f_score (close_node g c) = f_score g"
  by (auto simp: f_score_def)

lemma closer_close_node [simp]: "closer (close_node g c) a b = closer g a b"
  by (simp add: closer_def)

lemma pop_close_struct_inv:
  assumes inv: "struct_inv g0 start end heuristic c0 {} st"
    and cur: "cur \<in> set (content (openHeap st))" "cur \<noteq> end"
    and h1: "mset (content h1) + {#cur#} = mset (content (openHeap st))"
            "heap_inv (f_score (graph st)) (content h1)"
  defines "st1 \<equiv> st\<lparr>openHeap := h1, graph := close_node (graph st) cur\<rparr>"
  shows "struct_inv g0 start end heuristic cur (set (neighbors g0 cur)) st1"
    and "cur \<in> grid_nodes g0" and "closed (nodeState (graph st1) cur)"
proof -
  let ?G = "graph st"
  let ?S = "nodeState ?G"
  let ?H = "content (openHeap st)"
  from inv have grid: "grid ?G = grid g0" "diagonal ?G = diagonal g0"
    and start: "start \<in> grid_nodes g0"
    and endc: "end \<in> grid_nodes g0 \<longrightarrow> \<not> closed (?S end)"
    and heap: "heap_ok g0 st" and sok: "start_ok start st" and hok: "h_ok g0 heuristic end st"
    and vok: "visited_ok g0 start heuristic end st" and cok: "closed_ok g0 start st"
    and eok: "edges_ok g0 c0 {} st" and clo: "closest_ok g0 start st"
    by (auto simp: struct_inv_def)
  from heap cur(1) have curo: "cur \<in> grid_nodes g0" "visited (?S cur)" "\<not> closed (?S cur)"
    by (auto simp: heap_ok_def)
  show "cur \<in> grid_nodes g0" by (rule curo)
  show "closed (nodeState (graph st1) cur)" by (simp add: st1_def)
  have g1: "graph st1 = close_node ?G cur" and o1: "openHeap st1 = h1"
    and cl1: "closestNode st1 = closestNode st" by (simp_all add: st1_def)
  have dist: "distinct ?H" using heap by (simp add: heap_ok_def)
  have m: "mset (cur # content h1) = mset ?H" using h1(1) by simp
  have "distinct (cur # content h1) = distinct ?H" using m by (rule mset_eq_imp_distinct_iff)
  then have d1: "distinct (content h1)" "cur \<notin> set (content h1)" using dist by auto
  have "set (cur # content h1) = set ?H" using m by (rule mset_eq_setD)
  then have s1: "set (content h1) = set ?H - {cur}" using d1 by auto
  have c8: "heap_ok g0 st1"
    using heap d1 s1 h1(2) by (auto simp: heap_ok_def g1 o1)
  have c2: "start_ok start st1" using sok by (auto simp: start_ok_def g1)
  have c3: "h_ok g0 heuristic end st1" using hok by (auto simp: h_ok_def g1)
  have c4: "visited_ok g0 start heuristic end st1"
    using vok by (auto simp: visited_ok_def g1 intro: tree_path_close_node)
  have c5: "closed_ok g0 start st1" using cok curo by (auto simp: closed_ok_def g1)
  have c6: "edges_ok g0 cur (set (neighbors g0 cur)) st1"
    unfolding edges_ok_def g1
  proof (intro ballI impI)
    fix u m assume u: "u \<in> grid_nodes g0" "closed (nodeState (close_node ?G cur) u)"
      and m: "m \<in> set (neighbors g0 u)" "\<not> isNodeWall m"
    show "(u = cur \<and> m \<in> set (neighbors g0 cur)) \<or> closed (nodeState (close_node ?G cur) m) \<or>
          (visited (nodeState (close_node ?G cur) m) \<and>
           node_g (nodeState (close_node ?G cur) m)
             \<le> node_g (nodeState (close_node ?G cur) u) + getNodeCost m (Some u))"
    proof (cases "u = cur")
      case True
      with m show ?thesis by simp
    next
      case False
      with u have "closed (?S u)" by simp
      with eok u(1) m have "closed (?S m) \<or>
           (visited (?S m) \<and> node_g (?S m) \<le> node_g (?S u) + getNodeCost m (Some u))"
        by (auto simp: edges_ok_def)
      then show ?thesis using False by auto
    qed
  qed
  have c7: "closest_ok g0 start st1" using clo by (auto simp: closest_ok_def g1 cl1)
  have c1: "end \<in> grid_nodes g0 \<longrightarrow> \<not> closed (nodeState (graph st1) end)"
    using endc cur(2) by (simp add: g1)
  show "struct_inv g0 start end heuristic cur (set (neighbors g0 cur)) st1"
    unfolding struct_inv_def using grid start c1 c2 c3 c4 c5 c6 c7 c8 by (simp add: g1)
qed

lemma frontier:
  assumes inv: "struct_inv g0 start end heuristic c0 {} st" and opt: "opt_inv g0 start st"
    and cons: "consistent g0 heuristic end"
  shows "valid_path g0 start pre \<Longrightarrow> last (start # pre) = u \<Longrightarrow>
         closed (nodeState (graph st) u) \<Longrightarrow> u \<in> grid_nodes g0 \<Longrightarrow>
         valid_path g0 u p \<Longrightarrow> \<not> closed (nodeState (graph st) (last (u # p))) \<Longrightarrow>
         \<exists>v \<in> set (content (openHeap st)).
            f_score (graph st) v
              \<le> path_cost start (pre @ p) + heuristic (pos_of (last (u # p))) (pos_of end)"
proof (induction p arbitrary: pre u)
  case Nil
  then show ?case by simp
next
  case (Cons m ms)
  let ?S = "nodeState (graph st)"
  from inv have heap: "heap_ok g0 st" and vok: "visited_ok g0 start heuristic end st"
    and eok: "edges_ok g0 c0 {} st"
    by (auto simp: struct_inv_def)
  from Cons.prems(5) have m: "m \<in> set (neighbors g0 u)" "\<not> isNodeWall m" "valid_path g0 m ms"
    by auto
  have mg: "m \<in> grid_nodes g0" using m(1) by (rule neighbors_grid_nodes)
  have pre_m: "valid_path g0 start (pre @ [m])" "last (start # pre @ [m]) = m"
    using Cons.prems(1,2) m by (auto simp: valid_path_append)
  have cost: "path_cost start (pre @ m # ms) =
                path_cost start pre + getNodeCost m (Some u) + path_cost m ms"
    using Cons.prems(2) by (simp add: path_cost_append)
  from eok Cons.prems(3,4) m have disj: "closed (?S m) \<or>
       (visited (?S m) \<and> node_g (?S m) \<le> node_g (?S u) + getNodeCost m (Some u))"
    by (auto simp: edges_ok_def)
  show ?case
  proof (cases "closed (?S m)")
    case True
    from Cons.IH[OF pre_m True mg m(3)] Cons.prems(6)
    show ?thesis by simp
  next
    case False
    with disj have v: "visited (?S m)" "node_g (?S m) \<le> node_g (?S u) + getNodeCost m (Some u)"
      by auto
    have mH: "m \<in> set (content (openHeap st))" using heap mg v(1) False by (auto simp: heap_ok_def)
    have f: "f_score (graph st) m = node_g (?S m) + heuristic (pos_of m) (pos_of end)"
      using vok mg v(1) by (auto simp: visited_ok_def f_score_def)
    have gu: "node_g (?S u) \<le> path_cost start pre"
      using opt Cons.prems(1,2,3,4) by (auto simp: opt_inv_def)
    have hm: "heuristic (pos_of m) (pos_of end)
                \<le> path_cost m ms + heuristic (pos_of (last (m # ms))) (pos_of end)"
      by (rule consistent_path[OF cons mg m(3)])
    have "f_score (graph st) m
            \<le> path_cost start (pre @ m # ms) + heuristic (pos_of (last (u # m # ms))) (pos_of end)"
      unfolding f cost using v(2) gu hm by simp
    with mH show ?thesis by blast
  qed
qed

lemma root_is_optimal:
  assumes inv: "struct_inv g0 start end heuristic c0 {} st" and opt: "opt_inv g0 start st"
    and cons: "consistent g0 heuristic end"
    and ne: "content (openHeap st) \<noteq> []"
    and p: "valid_path g0 start p" "last (start # p) = content (openHeap st) ! 0"
  shows "node_g (nodeState (graph st) (content (openHeap st) ! 0)) \<le> path_cost start p"
proof -
  let ?S = "nodeState (graph st)"
  let ?cur = "content (openHeap st) ! 0"
  from inv have heap: "heap_ok g0 st" and vok: "visited_ok g0 start heuristic end st"
    and sok: "start_ok start st" and start: "start \<in> grid_nodes g0"
    by (auto simp: struct_inv_def)
  have curH: "?cur \<in> set (content (openHeap st))" using ne by simp
  with heap have curo: "?cur \<in> grid_nodes g0" "visited (?S ?cur)" "\<not> closed (?S ?cur)"
    by (auto simp: heap_ok_def)
  have "\<exists>v \<in> set (content (openHeap st)).
            f_score (graph st) v
              \<le> path_cost start ([] @ p) + heuristic (pos_of (last (start # p))) (pos_of end)"
    using sok start p curo(3)
    by (intro frontier[OF inv opt cons]) (auto simp: start_ok_def)
  then obtain v where v: "v \<in> set (content (openHeap st))"
    "f_score (graph st) v \<le> path_cost start p + heuristic (pos_of ?cur) (pos_of end)"
    using p(2) by auto
  have "f_score (graph st) ?cur \<le> f_score (graph st) v"
    using heap v(1) by (intro heap_root_min) (auto simp: heap_ok_def)
  moreover have "f_score (graph st) ?cur = node_g (?S ?cur) + heuristic (pos_of ?cur) (pos_of end)"
    using vok curo by (auto simp: visited_ok_def f_score_def)
  ultimately show ?thesis using v(2) by simp
qed

lemma pop_close_opt_inv:
  assumes "opt_inv g0 start st"
    and "\<forall>p. valid_path g0 start p \<and> last (start # p) = cur \<longrightarrow>
             node_g (nodeState (graph st) cur) \<le> path_cost start p"
  shows "opt_inv g0 start (st\<lparr>openHeap := h1, graph := close_node (graph st) cur\<rparr>)"
  using assms unfolding opt_inv_def by auto


subsection \<open>What \<^verbatim>\<open>search\<close> returns\<close>

lemma cleanDirty_eq:
  "cleanDirty g =
     g\<lparr>nodeState := (\<lambda>n. if n \<in> set (dirtyNodes g) then clean_state else nodeState g n),
       dirtyNodes := []\<rparr>"
  by (simp add: cleanDirty_def foldl_cleanNode_eq)

lemma cycle_cost_nonneg:
  assumes "consistent g heuristic end" "start \<in> grid_nodes g" "valid_path g start p"
    "last (start # p) = start"
  shows "0 \<le> path_cost start p"
  using consistent_path[OF assms(1,2,3)] assms(4) by simp

text \<open>What a call of \<^verbatim>\<open>search\<close> on a graph that is clean outside its dirty list returns:
  either the goal was popped, and the result is the path that the \<^verbatim>\<open>parent\<close> references
  of the goal describe; or the heap ran empty with every invariant intact, and the result
  is the path to the closest node, or the empty path.\<close>

definition search_result_ok ::
  "Graph \<Rightarrow> GridNode \<Rightarrow> GridNode \<Rightarrow> bool \<Rightarrow> (pos \<Rightarrow> pos \<Rightarrow> real)
     \<Rightarrow> (error + GridNode list \<times> SearchState) option \<Rightarrow> bool" where
  "search_result_ok g start end closest heuristic r =
     (\<exists>path st'. r = Some (Inr (path, st')) \<and>
        grid (graph st') = grid g \<and> diagonal (graph st') = diagonal g \<and>
        ((tree_path (graph st') start end path \<and>
          (consistent g heuristic end \<longrightarrow>
             (\<forall>p. valid_path g start p \<and> last (start # p) = end \<longrightarrow>
                  node_g (nodeState (graph st') end) \<le> path_cost start p))) \<or>
         (start \<noteq> end \<and> content (openHeap st') = [] \<and>
          struct_inv g start end heuristic start {} st' \<and>
          (if closest then tree_path (graph st') start (closestNode st') path else path = []))))"

definition loop_inv ::
  "Graph \<Rightarrow> GridNode \<Rightarrow> GridNode \<Rightarrow> (pos \<Rightarrow> pos \<Rightarrow> real) \<Rightarrow> SearchState \<Rightarrow> bool" where
  "loop_inv g start end heuristic st =
     (start \<noteq> end \<and> struct_inv g start end heuristic start {} st \<and>
      (consistent g heuristic end \<longrightarrow> opt_inv g start st))"

lemma struct_inv_cur:
  "struct_inv g0 start end heuristic c {} st \<Longrightarrow> struct_inv g0 start end heuristic c' {} st"
  by (simp add: struct_inv_def edges_ok_def)

lemma loop_inv_round:
  assumes inv: "loop_inv g start end heuristic st" and ne: "0 < size_heap (openHeap st)"
  shows "(\<forall>st'. search_round closest heuristic end st = Inr (Inr st') \<longrightarrow>
            loop_inv g start end heuristic st') \<and>
         (\<forall>cur st'. search_round closest heuristic end st = Inr (Inl (cur, st')) \<longrightarrow>
            search_result_ok g start end closest heuristic
              (map_option (\<lambda>path. Inr (path, st')) (pathTo (graph st') cur)))"
proof -
  let ?G = "graph st"
  let ?H = "content (openHeap st)"
  let ?cur = "?H ! 0"
  from inv have se: "start \<noteq> end" and sinv: "struct_inv g start end heuristic start {} st"
    and oinv: "consistent g heuristic end \<Longrightarrow> opt_inv g start st"
    by (auto simp: loop_inv_def)
  from sinv have heap: "heap_ok g st" and vok: "visited_ok g start heuristic end st"
    and grid: "grid ?G = grid g" "diagonal ?G = diagonal g"
    by (auto simp: struct_inv_def)
  from ne have Hne: "?H \<noteq> []" by (simp add: size_heap_def)
  then have curH: "?cur \<in> set ?H" by simp
  from pop_spec[OF ne, of "f_score ?G"] heap obtain h1 where
    pop: "pop (f_score ?G) (openHeap st) = Inr (Some ?cur, h1)"
    and h1: "mset (content h1) + {#?cur#} = mset ?H" "heap_inv (f_score ?G) (content h1)"
    by (auto simp: heap_ok_def)
  have best: "consistent g heuristic end \<Longrightarrow>
      \<forall>p. valid_path g start p \<and> last (start # p) = ?cur \<longrightarrow>
          node_g (nodeState ?G ?cur) \<le> path_cost start p"
    using root_is_optimal[OF sinv oinv _ Hne] by blast
  note round = search_round_unfold[OF pop, of closest heuristic "end"]
  show ?thesis
  proof (cases "?cur = end")
    case True
    from heap curH have "?cur \<in> grid_nodes g" "visited (nodeState ?G ?cur)"
      by (auto simp: heap_ok_def)
    with vok obtain p where p: "tree_path ?G start ?cur p" by (auto simp: visited_ok_def)
    then have "pathTo ?G end = Some p" using True by (simp add: tree_path_pathTo)
    then have "search_result_ok g start end closest heuristic
        (map_option (\<lambda>path. Inr (path, st\<lparr>openHeap := h1\<rparr>)) (pathTo (graph (st\<lparr>openHeap := h1\<rparr>)) end))"
      using p True best grid by (auto simp: search_result_ok_def)
    then show ?thesis using True round by auto
  next
    case False
    let ?st1 = "st\<lparr>openHeap := h1, graph := close_node ?G ?cur\<rparr>"
    note pc = pop_close_struct_inv[OF sinv curH False h1]
    have nb: "neighbors ?G ?cur = neighbors g ?cur" using grid by (rule neighbors_cong)
    have "loop_inv g start end heuristic st'"
      if vn: "visit_neighbors closest heuristic end ?cur ?st1 (neighbors g ?cur) = Inr st'" for st'
    proof -
      from visit_neighbors_inv[OF pc(1) pc(2) pc(3) _ vn]
      have "struct_inv g start end heuristic ?cur {} st'" by simp
      then have s: "struct_inv g start end heuristic start {} st'" by (rule struct_inv_cur)
      have "opt_inv g start st'" if c: "consistent g heuristic end"
        using pop_close_opt_inv[OF oinv[OF c] best[OF c], of h1] vn
        by (rule visit_neighbors_opt_inv)
      with s se show ?thesis by (simp add: loop_inv_def)
    qed
    then show ?thesis using False round nb
      by (auto simp: bind_result_def split: sum.splits)
  qed
qed

lemma loop_inv_exhausted:
  assumes inv: "loop_inv g start end heuristic st" and e: "size_heap (openHeap st) = 0"
  shows "search_result_ok g start end closest heuristic
           (if closest then map_option (\<lambda>path. Inr (path, st)) (pathTo (graph st) (closestNode st))
            else Some (Inr ([], st)))"
proof -
  from inv have se: "start \<noteq> end" and sinv: "struct_inv g start end heuristic start {} st"
    by (auto simp: loop_inv_def)
  from sinv have grid: "grid (graph st) = grid g" "diagonal (graph st) = diagonal g"
    and sok: "start_ok start st" and vok: "visited_ok g start heuristic end st"
    and clo: "closest_ok g start st"
    by (auto simp: struct_inv_def)
  from e have empty: "content (openHeap st) = []" by (simp add: size_heap_def)
  show ?thesis
  proof (cases closest)
    case False
    then show ?thesis using se empty sinv grid by (simp add: search_result_ok_def)
  next
    case True
    have "\<exists>p. tree_path (graph st) start (closestNode st) p"
      using clo sok vok by (auto simp: closest_ok_def start_ok_def visited_ok_def intro: tree_path.root)
    then obtain p where p: "tree_path (graph st) start (closestNode st) p" by blast
    then have "pathTo (graph st) (closestNode st) = Some p" by (rule tree_path_pathTo)
    then show ?thesis using True se empty sinv grid p by (simp add: search_result_ok_def)
  qed
qed

lemma search_loop_result_ok:
  assumes "loop_inv g start end heuristic st"
  shows "search_result_ok g start end closest heuristic (search_loop closest heuristic end st)"
  using assms
  by (rule search_loop_rule[where I = "loop_inv g start end heuristic"])
     (use loop_inv_round loop_inv_exhausted in blast)+

lemma search_result_ok_search:
  fixes heuristic :: "(pos \<Rightarrow> pos \<Rightarrow> real) option"
  defines "h \<equiv> (case heuristic of None \<Rightarrow> manhattan | Some h \<Rightarrow> h)"
  assumes clean: "clean_outside_dirty g" and start: "start \<in> grid_nodes g"
  shows "search_result_ok g start end closest h (search g start end closest heuristic)"
proof -
  define G0 where "G0 = (cleanDirty g)\<lparr>nodeState := (nodeState (cleanDirty g))(start :=
                      (nodeState (cleanDirty g) start)\<lparr>node_h := h (pos_of start) (pos_of end)\<rparr>),
                    dirtyNodes := [start]\<rparr>"
  define st0 where "st0 = \<lparr>graph = G0, openHeap = \<lparr>content = [start], content_m1 = None\<rparr>,
                          closestNode = start\<rparr>"
  have init: "search_init g start end h = Inr st0"
    by (simp add: search_init_result st0_def G0_def)
  have s: "search g start end closest heuristic = search_loop closest h end st0"
    by (simp add: search_def h_def[symmetric] init)
  have cl: "\<And>n. n \<in> grid_nodes g \<Longrightarrow> nodeState (cleanDirty g) n = clean_state"
    using clean by (auto simp: cleanDirty_eq clean_outside_dirty_def)
  have grid0: "grid G0 = grid g" "diagonal G0 = diagonal g"
    by (simp_all add: G0_def cleanDirty_eq)
  have S0: "\<And>n. n \<in> grid_nodes g \<Longrightarrow> n \<noteq> start \<Longrightarrow> nodeState G0 n = clean_state"
    "nodeState G0 start = clean_state\<lparr>node_h := h (pos_of start) (pos_of end)\<rparr>"
    using cl start by (simp_all add: G0_def)
  have size0: "0 < size_heap (openHeap st0)" by (simp add: st0_def size_heap_def)
  have pop0: "pop (f_score (graph st0)) (openHeap st0) =
                Inr (Some start, \<lparr>content = [], content_m1 = None\<rparr>)"
    by (simp add: pop_list st0_def)
  note round = search_round_unfold[OF pop0, of closest h "end"]
  have root: "tree_path G0 start start []"
    by (rule tree_path.root) (simp_all add: S0 clean_state_def)
  show ?thesis
  proof (cases "start = end")
    case True
    let ?st' = "st0\<lparr>openHeap := \<lparr>content = [], content_m1 = None\<rparr>\<rparr>"
    have "pathTo (graph ?st') start = Some []"
      using tree_path_pathTo[OF root] by (simp add: st0_def)
    then have res: "search g start end closest heuristic = Some (Inr ([], ?st'))"
      using size0 round True unfolding s by (subst search_loop.simps) simp
    have g': "graph ?st' = G0" by (simp add: st0_def)
    have g0s: "node_g (nodeState G0 start) = 0" by (simp add: S0 clean_state_def)
    have opt: "node_g (nodeState G0 end) \<le> path_cost start p"
      if "consistent g h end" "valid_path g start p \<and> last (start # p) = end" for p
      using cycle_cost_nonneg[OF that(1) start, of p] that(2) g0s unfolding True[symmetric] by simp
    show ?thesis
      unfolding search_result_ok_def
    proof (intro exI[of _ "[]"] exI[of _ ?st'] conjI disjI1 impI allI)
      show "search g start end closest heuristic = Some (Inr ([], ?st'))" by (rule res)
      show "grid (graph ?st') = grid g" "diagonal (graph ?st') = diagonal g"
        using grid0 by (simp_all add: g')
      show "tree_path (graph ?st') start end []" using root True by (simp add: g')
      fix p assume "consistent g h end" "valid_path g start p \<and> last (start # p) = end"
      then show "node_g (nodeState (graph ?st') end) \<le> path_cost start p"
        unfolding g' by (rule opt)
    qed
  next
    case False
    define st1 where "st1 = st0\<lparr>openHeap := \<lparr>content = [], content_m1 = None\<rparr>,
                    graph := close_node G0 start\<rparr>"
    define S1 where "S1 = nodeState (graph st1)"
    have st1: "content (openHeap st1) = []" "closestNode st1 = start"
      "grid (graph st1) = grid g" "diagonal (graph st1) = diagonal g"
      using grid0 by (simp_all add: st1_def st0_def)
    have S1: "\<And>n. n \<in> grid_nodes g \<Longrightarrow> n \<noteq> start \<Longrightarrow> S1 n = clean_state"
      "S1 start = clean_state\<lparr>node_h := h (pos_of start) (pos_of end), closed := True\<rparr>"
      using S0 by (simp_all add: S1_def st1_def st0_def)
    have S1c: "closed (S1 n) \<longleftrightarrow> n = start" "\<not> visited (S1 n)"
      "node_h (S1 n) = 0 \<or> node_h (S1 n) = h (pos_of n) (pos_of end)"
      if "n \<in> grid_nodes g" for n
      using S1(1)[OF that] S1(2) by (cases "n = start"; simp add: clean_state_def)+
    have c8: "heap_ok g st1"
      unfolding heap_ok_def S1_def[symmetric] using S1c st1 by (auto simp: heap_inv_def)
    have c2: "start_ok start st1"
      unfolding start_ok_def S1_def[symmetric] using S1(2) by (simp add: clean_state_def)
    have c3: "h_ok g h end st1"
      unfolding h_ok_def S1_def[symmetric] using S1c(3) by blast
    have c4: "visited_ok g start h end st1"
      unfolding visited_ok_def S1_def[symmetric] using S1c(2) by blast
    have c5: "closed_ok g start st1"
      unfolding closed_ok_def S1_def[symmetric] using S1c(1) by blast
    have c6: "edges_ok g start (set (neighbors g start)) st1"
      unfolding edges_ok_def S1_def[symmetric] using S1c(1) by blast
    have c7: "closest_ok g start st1" by (simp add: closest_ok_def st1)
    have c1: "end \<in> grid_nodes g \<longrightarrow> \<not> closed (S1 end)" using S1c(1) False by auto
    have sinv: "struct_inv g start end h start (set (neighbors g start)) st1"
      unfolding struct_inv_def using c1 c2 c3 c4 c5 c6 c7 c8 st1 start
      by (simp add: S1_def)
    have oinv: "opt_inv g start st1" if c: "consistent g h end"
      unfolding opt_inv_def S1_def[symmetric]
    proof (intro ballI impI allI)
      fix n p assume n: "n \<in> grid_nodes g" "closed (S1 n)"
        and p: "valid_path g start p \<and> last (start # p) = n"
      from n S1c(1) have "n = start" by simp
      then show "node_g (S1 n) \<le> path_cost start p"
        using cycle_cost_nonneg[OF c start, of p] p S1(2) by (simp add: clean_state_def)
    qed
    from visit_neighbors_result[of closest h "end" start st1 "neighbors g start"]
    obtain st2 where vn: "visit_neighbors closest h end start st1 (neighbors g start) = Inr st2"
      by blast
    have nb: "neighbors (graph st0) start = neighbors g start"
      by (rule neighbors_cong) (simp_all add: st0_def grid0)
    have gst0: "graph st0 = G0" by (simp add: st0_def)
    have r: "search_round closest h end st0 = Inr (Inr st2)"
      using round False vn nb by (simp add: st1_def gst0)
    have "closed (nodeState (graph st1) start)" using S1(2) by (simp add: S1_def)
    from visit_neighbors_inv[OF sinv start this _ vn]
    have "struct_inv g start end h start {} st2" by simp
    moreover have "opt_inv g start st2" if c: "consistent g h end"
      using oinv[OF c] vn by (rule visit_neighbors_opt_inv)
    ultimately have "loop_inv g start end h st2" using False by (simp add: loop_inv_def)
    then have "search_result_ok g start end closest h (search_loop closest h end st2)"
      by (rule search_loop_result_ok)
    moreover have "search_loop closest h end st0 = search_loop closest h end st2"
      using size0 r by (subst search_loop.simps) simp
    ultimately show ?thesis by (simp add: s)
  qed
qed

subsection \<open>Double arithmetic and integer costs\<close>

text \<open>The numbers of the code are IEEE 754 doubles: what \<^verbatim>\<open>+\<close> returns is the exact sum
  rounded to the nearest number with a significand of 53 bits, a tie going to the even
  one. \<open>round_double\<close> is this rounding, on the range where doubles are normal (no overflow
  and no subnormal numbers), and \<open>double_add\<close> is the sum as the code computes it. The
  model adds exactly. The two agree on natural numbers below \<open>2 ^ 53\<close>; elsewhere they can
  differ, as for \<open>1.0000000000000004 + 3\<close>, which is \<open>4\<close> in the code.\<close>

definition round_even :: "real \<Rightarrow> int" where
  "round_even y =
     (let f = \<lfloor>y\<rfloor>
      in if y - of_int f < 1 / 2 then f
         else if 1 / 2 < y - of_int f then f + 1
         else if even f then f else f + 1)"

definition round_double :: "real \<Rightarrow> real" where
  "round_double x =
     (if x = 0 then 0
      else let e = \<lfloor>log 2 \<bar>x\<bar>\<rfloor> - 52
           in of_int (round_even (x / 2 powr of_int e)) * 2 powr of_int e)"

definition double_add :: "real \<Rightarrow> real \<Rightarrow> real" where
  "double_add x y = round_double (x + y)"




lemma two_powr_neg: "(2::real) powr of_int (- int d) = 1 / 2 ^ d"
  by (simp add: powr_minus powr_realpow divide_inverse)

lemma double_add_rounds: "double_add (1 + 1 / 2 ^ 51) 3 = 4"
proof -
  define x :: real where "x = 4 + 1 / 2 ^ 51"
  have b: "4 \<le> x" "x < 8" "x \<noteq> 0" by (simp_all add: x_def)
  then have pos: "0 < x" by simp
  have "2 powr 2 \<le> x" using b(1) by simp
  then have l1: "2 \<le> log 2 x" using pos by (subst le_log_iff) auto
  have "x < 2 powr 3" using b(2) by simp
  then have l2: "log 2 x < 3" using pos by (subst log_less_iff) auto
  have ax: "\<bar>x\<bar> = x" using pos by simp
  have l: "\<lfloor>log 2 \<bar>x\<bar>\<rfloor> = 2"
    unfolding ax by (rule floor_unique) (use l1 l2 in simp_all)
  have "(2::int) - 52 = - int 50" by simp
  then have p: "(2::real) powr of_int (2 - 52) = 1 / 2 ^ 50"
    by (simp only: two_powr_neg)
  have q: "x / (1 / 2 ^ 50) = of_int (2 ^ 52) + 1 / 2" by (simp add: x_def)
  have f: "\<lfloor>of_int (2 ^ 52) + 1 / 2 :: real\<rfloor> = 2 ^ 52"
    by (rule floor_unique) simp_all
  have ev: "even (2 ^ 52 :: int)" by simp
  have e: "round_even (of_int (2 ^ 52) + 1 / 2) = 2 ^ 52"
    unfolding round_even_def Let_def f using ev by simp
  have "round_double x = of_int (2 ^ 52) * (1 / 2 ^ 50)"
    unfolding round_double_def l Let_def p q e using b(3) by simp
  also have "\<dots> = 4" by simp
  finally have "round_double x = 4" .
  moreover have "1 + 1 / 2 ^ 51 + 3 = x" by (simp add: x_def)
  ultimately show ?thesis by (simp only: double_add_def)
qed






subsection \<open>Cheapest paths\<close>



lemma tree_path_start: 
  assumes "tree_path g start start p" "parent (nodeState g start) = None"
  shows "p = []"
  using assms by (cases rule: tree_path.cases) auto

subsection \<open>Best-effort mode with an unreachable goal\<close>

text \<open>
  Claim C10. Let \<^verbatim>\<open>search\<close> be called with \<^verbatim>\<open>closest = true\<close> on a graph that is clean outside
  its dirty list, from a start node of the grid, with a goal that no path of the grid
  reaches. If no node that the search has relaxed is closer than \<^verbatim>\<open>start\<close> (a smaller \<^verbatim>\<open>h\<close>,
  or the same \<^verbatim>\<open>h\<close> and a smaller \<^verbatim>\<open>g\<close>), then the tracked closest node is still \<^verbatim>\<open>start\<close>
  when the heap runs empty, and \<^verbatim>\<open>search\<close> returns the empty sequence. The hypothesis is
  stated on the state in which the search ends: the relaxed nodes are the visited ones,
  and the \<^verbatim>\<open>h\<close> and \<^verbatim>\<open>g\<close> of a visited node are there the ones its last relaxation gave it.
\<close>

theorem search_closest_stays_at_start:
  fixes heuristic :: "(pos \<Rightarrow> pos \<Rightarrow> real) option"
  assumes "clean_outside_dirty g" and "start \<in> grid_nodes g"
    and unreachable: "\<forall>p. valid_path g start p \<longrightarrow> last (start # p) \<noteq> end"
    and never: "\<forall>path st. search g start end True heuristic = Some (Inr (path, st)) \<longrightarrow>
             (\<forall>n \<in> grid_nodes g. visited (nodeState (graph st) n) \<longrightarrow>
                \<not> closer (graph st) n start)"
  shows "\<exists>st. search g start end True heuristic = Some (Inr ([], st)) \<and> closestNode st = start"
proof -
  let ?h = "case heuristic of None \<Rightarrow> manhattan | Some h \<Rightarrow> h"
  from search_result_ok_search[OF assms(1,2), of "end" True heuristic]
  obtain path st where res: "search g start end True heuristic = Some (Inr (path, st))"
    and grid: "grid (graph st) = grid g" "diagonal (graph st) = diagonal g"
    and alt: "(tree_path (graph st) start end path \<and>
          (consistent g ?h end \<longrightarrow>
             (\<forall>p. valid_path g start p \<and> last (start # p) = end \<longrightarrow>
                  node_g (nodeState (graph st) end) \<le> path_cost start p))) \<or>
         (start \<noteq> end \<and> content (openHeap st) = [] \<and>
          struct_inv g start end ?h start {} st \<and>
          (if True then tree_path (graph st) start (closestNode st) path else path = []))"
    unfolding search_result_ok_def by blast
  have "\<not> tree_path (graph st) start end path"
  proof
    assume "tree_path (graph st) start end path"
    from tree_path_valid[OF this] have "valid_path g start path" "last (start # path) = end"
      using valid_path_cong[OF grid] by simp_all
    with unreachable show False by blast
  qed
  with alt have sinv: "struct_inv g start end ?h start {} st"
    and tp: "tree_path (graph st) start (closestNode st) path" by auto
  from sinv have cok: "closest_ok g start st" and sok: "start_ok start st"
    by (simp_all add: struct_inv_def)
  from never res have "\<forall>n \<in> grid_nodes g. visited (nodeState (graph st) n) \<longrightarrow>
                \<not> closer (graph st) n start" by blast
  with cok have c: "closestNode st = start" unfolding closest_ok_def by blast
  from tp sok have "path = []" unfolding c by (auto simp: start_ok_def intro: tree_path_start)
  with res c show ?thesis by blast
qed

subsection \<open>Searches on given grids\<close>

lemma clean_outside_dirty_new_Graph: "clean_outside_dirty (new_Graph gridIn diag)"
  by (simp add: clean_outside_dirty_def)













definition grid_blocked :: Graph where
  "grid_blocked = new_Graph [[1, 1, 0, 1]] False"

lemma grid_nodes_grid_blocked:
  "grid_nodes grid_blocked =
     {\<lparr>node_x = 0, node_y = 0, node_w = 1\<rparr>, \<lparr>node_x = 0, node_y = 1, node_w = 1\<rparr>,
      \<lparr>node_x = 0, node_y = 2, node_w = 0\<rparr>, \<lparr>node_x = 0, node_y = 3, node_w = 1\<rparr>}"
  by (simp add: grid_nodes_def grid_blocked_def make_row_def upt_rec)

lemma grid_blocked_unreachable:
  "valid_path grid_blocked n p \<Longrightarrow>
   n \<in> {\<lparr>node_x = 0, node_y = 0, node_w = 1\<rparr>, \<lparr>node_x = 0, node_y = 1, node_w = 1\<rparr>} \<Longrightarrow>
   last (n # p) \<in> {\<lparr>node_x = 0, node_y = 0, node_w = 1\<rparr>, \<lparr>node_x = 0, node_y = 1, node_w = 1\<rparr>}"
proof (induction p arbitrary: n)
  case Nil
  then show ?case by simp
next
  case (Cons m ms)
  from Cons.prems have "m \<in> {\<lparr>node_x = 0, node_y = 0, node_w = 1\<rparr>, \<lparr>node_x = 0, node_y = 1, node_w = 1\<rparr>}"
    by (auto simp: grid_blocked_def neighbors_def push_cell_def grid_at_def js_nth_def
          make_row_def isNodeWall_def upt_rec)
  with Cons.IH[of m] Cons.prems(1) show ?case by simp
qed

lemma search_grid_blocked:
  "\<exists>st. search grid_blocked \<lparr>node_x = 0, node_y = 1, node_w = 1\<rparr>
          \<lparr>node_x = 0, node_y = 3, node_w = 1\<rparr> True None = Some (Inr ([], st)) \<and>
        (\<forall>n \<in> grid_nodes grid_blocked. visited (nodeState (graph st) n) \<longrightarrow>
            \<not> closer (graph st) n \<lparr>node_x = 0, node_y = 1, node_w = 1\<rparr>)"
  unfolding grid_nodes_grid_blocked
  by (simp add: grid_blocked_def search_eval heap_eval closer_def cong: bind_result_weak_cong)

text \<open>The theorem for claim C10 on the row \<open>[1, 1, 0, 1]\<close>, from \<open>(0, 1)\<close> to \<open>(0, 3)\<close> behind the
  wall: the search relaxes \<open>(0, 0)\<close>, which is farther from the goal than the start.\<close>

theorem search_closest_stays_at_start_witness:

  "\<exists>st. search grid_blocked \<lparr>node_x = 0, node_y = 1, node_w = 1\<rparr>
          \<lparr>node_x = 0, node_y = 3, node_w = 1\<rparr> True None = Some (Inr ([], st)) \<and>
        closestNode st = \<lparr>node_x = 0, node_y = 1, node_w = 1\<rparr>"
proof -
  let ?s = "\<lparr>node_x = 0, node_y = 1, node_w = 1\<rparr>"
  let ?e = "\<lparr>node_x = 0, node_y = 3, node_w = 1\<rparr>"
  have 1: "clean_outside_dirty grid_blocked"
    unfolding grid_blocked_def by (rule clean_outside_dirty_new_Graph)
  have 2: "?s \<in> grid_nodes grid_blocked" by (simp add: grid_nodes_grid_blocked)
  have 3: "\<forall>p. valid_path grid_blocked ?s p \<longrightarrow> last (?s # p) \<noteq> ?e"
    using grid_blocked_unreachable[of ?s] by fastforce
  have 4: "\<forall>path st. search grid_blocked ?s ?e True None = Some (Inr (path, st)) \<longrightarrow>
             (\<forall>n \<in> grid_nodes grid_blocked. visited (nodeState (graph st) n) \<longrightarrow>
                \<not> closer (graph st) n ?s)"
    using search_grid_blocked by auto
  from search_closest_stays_at_start[OF 1 2 3 4] show ?thesis .
qed

section \<open>The pushes of a search\<close>

text \<open>The points of \<^verbatim>\<open>search\<close> between which the heap changes: \<open>Head\<close> is the test of the
  \<^verbatim>\<open>while\<close> loop, \<open>Body currentNode ns\<close> the \<^verbatim>\<open>for\<close> loop of the round that popped
  \<^verbatim>\<open>currentNode\<close>, with the neighbours \<open>ns\<close> still to visit.\<close>

datatype point = Head | Body GridNode "GridNode list"

text \<open>\<open>reached g start end closest heuristic pt st pushed\<close>: the call of \<^verbatim>\<open>search\<close> on \<open>g\<close> gets
  to the point \<open>pt\<close> in the state \<open>st\<close>, and \<open>pushed\<close> collects every node that has entered
  the heap so far, once for each time it entered. The steps are those of \<open>search_init\<close>,
  \<open>search_round\<close> and \<open>visit_neighbors\<close>; a step of the \<^verbatim>\<open>for\<close> loop adds to \<open>pushed\<close> what
  the content of the heap has gained, which is the neighbour after \<^verbatim>\<open>push\<close> and nothing after
  \<^verbatim>\<open>rescoreElement\<close>.\<close>

inductive reached ::
  "Graph \<Rightarrow> GridNode \<Rightarrow> GridNode \<Rightarrow> bool \<Rightarrow> (pos \<Rightarrow> pos \<Rightarrow> real)
     \<Rightarrow> point \<Rightarrow> SearchState \<Rightarrow> GridNode multiset \<Rightarrow> bool"
  for g :: Graph and start :: GridNode and "end" :: GridNode and closest :: bool
    and heuristic :: "pos \<Rightarrow> pos \<Rightarrow> real" where
  init: "search_init g start end heuristic = Inr st \<Longrightarrow>
         reached g start end closest heuristic Head st (mset (content (openHeap st)))"
| pop: "reached g start end closest heuristic Head st pushed \<Longrightarrow>
        0 < size_heap (openHeap st) \<Longrightarrow>
        pop (f_score (graph st)) (openHeap st) = Inr (Some currentNode, h) \<Longrightarrow>
        currentNode \<noteq> end \<Longrightarrow>
        g' = close_node (graph st) currentNode \<Longrightarrow>
        reached g start end closest heuristic (Body currentNode (neighbors g' currentNode))
          (st\<lparr>openHeap := h, graph := g'\<rparr>) pushed"
| visit: "reached g start end closest heuristic (Body currentNode (neighbor # ns)) st pushed \<Longrightarrow>
          visit_neighbor closest heuristic end currentNode st neighbor = Inr st' \<Longrightarrow>
          reached g start end closest heuristic (Body currentNode ns) st'
            (pushed + (mset (content (openHeap st')) - mset (content (openHeap st))))"
| round: "reached g start end closest heuristic (Body currentNode []) st pushed \<Longrightarrow>
          reached g start end closest heuristic Head st pushed"

text \<open>The points reached are those of the run of \<open>search_loop\<close>.\<close>

lemma reached_search_loop:
  assumes "reached g start end closest heuristic pt st pushed"
  shows "\<exists>st0. search_init g start end heuristic = Inr st0 \<and>
           (case pt of
              Head \<Rightarrow> search_loop closest heuristic end st
            | Body currentNode ns \<Rightarrow>
                (case visit_neighbors closest heuristic end currentNode st ns of
                   Inl e \<Rightarrow> Some (Inl e)
                 | Inr st' \<Rightarrow> search_loop closest heuristic end st')) =
           search_loop closest heuristic end st0"
  using assms
proof (induction rule: reached.induct)
  case (init st)
  then show ?case by simp
next
  case (pop st pushed currentNode h g')
  then obtain st0 where st0: "search_init g start end heuristic = Inr st0"
    "search_loop closest heuristic end st = search_loop closest heuristic end st0" by auto
  have "search_loop closest heuristic end st =
      (case visit_neighbors closest heuristic end currentNode (st\<lparr>openHeap := h, graph := g'\<rparr>)
              (neighbors g' currentNode) of
         Inl e \<Rightarrow> Some (Inl e)
       | Inr st' \<Rightarrow> search_loop closest heuristic end st')"
    using pop.hyps(2,3,4,5)
    by (subst search_loop.simps) (simp add: search_round_def Let_def split: sum.splits)
  with st0 show ?case by simp
next
  case (visit currentNode neighbor ns st pushed st')
  then show ?case by simp
next
  case (round currentNode st pushed)
  then show ?case by simp
qed

text \<open>What a step of the \<^verbatim>\<open>for\<close> loop does to the heap: it pushes the neighbour if this is
  neither closed nor a wall nor visited, and leaves the content the same up to order
  otherwise.\<close>

definition pushes :: "Graph \<Rightarrow> GridNode \<Rightarrow> bool" where
  "pushes g neighbor =
     (\<not> closed (nodeState g neighbor) \<and> \<not> isNodeWall neighbor \<and> \<not> visited (nodeState g neighbor))"

lemma visit_neighbor_content:
  assumes "visit_neighbor closest heuristic end currentNode st neighbor = Inr st'"
  shows "mset (content (openHeap st')) =
           mset (content (openHeap st)) + (if pushes (graph st) neighbor then {#neighbor#} else {#})"
    and "pushes (graph st) neighbor \<Longrightarrow> visited (nodeState (graph st') neighbor)"
    and "visited (nodeState (graph st) n) \<Longrightarrow> visited (nodeState (graph st') n)"
    and "closed (nodeState (graph st') n) = closed (nodeState (graph st) n)"
proof -
  show "mset (content (openHeap st')) =
           mset (content (openHeap st)) + (if pushes (graph st) neighbor then {#neighbor#} else {#})"
  proof (cases "relaxes (graph st) currentNode neighbor")
    case True
    from visit_neighbor_relax[OF True, of closest heuristic "end"] assms
    show ?thesis using True by (auto simp: pushes_def relaxes_def)
  next
    case False
    with assms have "st' = st" by (simp add: visit_neighbor_skip)
    with False show ?thesis by (auto simp: pushes_def relaxes_def)
  qed
  show "pushes (graph st) neighbor \<Longrightarrow> visited (nodeState (graph st') neighbor)"
  proof -
    assume p: "pushes (graph st) neighbor"
    then have r: "relaxes (graph st) currentNode neighbor" by (simp add: pushes_def relaxes_def)
    from visit_neighbor_relax[OF r, of closest heuristic "end"] assms
    show ?thesis by auto
  qed
  show "visited (nodeState (graph st) n) \<Longrightarrow> visited (nodeState (graph st') n)"
  proof (cases "relaxes (graph st) currentNode neighbor")
    case True
    assume "visited (nodeState (graph st) n)"
    with visit_neighbor_relax[OF True, of closest heuristic "end"] assms
    show ?thesis by auto
  next
    case False
    assume "visited (nodeState (graph st) n)"
    with False assms show ?thesis by (simp add: visit_neighbor_skip)
  qed
  show "closed (nodeState (graph st') n) = closed (nodeState (graph st) n)"
  proof (cases "relaxes (graph st) currentNode neighbor")
    case True
    with visit_neighbor_relax[OF True, of closest heuristic "end"] assms
    show ?thesis by auto
  next
    case False
    with assms show ?thesis by (simp add: visit_neighbor_skip)
  qed
qed

definition push_inv :: "GridNode \<Rightarrow> point \<Rightarrow> SearchState \<Rightarrow> GridNode multiset \<Rightarrow> bool" where
  "push_inv start pt st pushed =
     ((\<forall>n. count pushed n \<le> 1) \<and> distinct (content (openHeap st)) \<and>
      set (content (openHeap st)) \<subseteq> set_mset pushed \<and> start \<in># pushed \<and>
      (\<forall>n. n \<in># pushed \<longrightarrow> n = start \<or> visited (nodeState (graph st) n)) \<and>
      ((\<forall>n. n \<in># pushed \<longrightarrow>
          visited (nodeState (graph st) n) \<or> closed (nodeState (graph st) n)) \<or>
       (pt = Head \<and> content (openHeap st) = [start])))"

lemma reached_push_inv:
  assumes "reached g start end closest heuristic pt st pushed"
  shows "push_inv start pt st pushed"
  using assms
proof (induction rule: reached.induct)
  case (init st)
  then show ?case by (auto simp: search_init_result push_inv_def)
next
  case (pop st pushed currentNode h g')
  let ?c = "content (openHeap st)"
  from pop_nonempty[OF pop.hyps(2), of "f_score (graph st)"] pop.hyps(3)
  have cur: "currentNode = ?c ! 0" and ms: "mset (content h) + {#currentNode#} = mset ?c"
    by auto
  from pop.IH have inv: "\<forall>n. count pushed n \<le> 1" "distinct ?c" "set ?c \<subseteq> set_mset pushed"
    "start \<in># pushed" "\<forall>n. n \<in># pushed \<longrightarrow> n = start \<or> visited (nodeState (graph st) n)"
    and alt: "(\<forall>n. n \<in># pushed \<longrightarrow>
          visited (nodeState (graph st) n) \<or> closed (nodeState (graph st) n)) \<or>
       ?c = [start]"
    by (auto simp: push_inv_def)
  from ms have ms': "mset (currentNode # content h) = mset ?c" by simp
  from mset_eq_imp_distinct_iff[OF ms'] inv(2) have d: "distinct (content h)" by simp
  from mset_eq_setD[OF ms'] have s: "set (content h) \<subseteq> set ?c" by auto
  have "\<forall>n. n \<in># pushed \<longrightarrow>
          visited (nodeState g' n) \<or> closed (nodeState g' n)"
  proof (intro allI impI)
    fix n assume n: "n \<in># pushed"
    from alt show "visited (nodeState g' n) \<or> closed (nodeState g' n)"
    proof
      assume "\<forall>n. n \<in># pushed \<longrightarrow>
          visited (nodeState (graph st) n) \<or> closed (nodeState (graph st) n)"
      with n show ?thesis by (auto simp: pop.hyps(5))
    next
      assume c: "?c = [start]"
      with inv(5) n cur show ?thesis by (auto simp: pop.hyps(5))
    qed
  qed
  moreover have "\<forall>n. n \<in># pushed \<longrightarrow> n = start \<or> visited (nodeState g' n)"
    using inv(5) by (simp add: pop.hyps(5))
  moreover have "set (content h) \<subseteq> set_mset pushed" using s inv(3) by blast
  ultimately show ?case using inv(1,4) d by (simp add: push_inv_def)
next
  case (visit currentNode neighbor ns st pushed st')
  note vc = visit_neighbor_content[OF visit.hyps(2)]
  from visit.IH have inv: "\<forall>n. count pushed n \<le> 1" "distinct (content (openHeap st))"
    "set (content (openHeap st)) \<subseteq> set_mset pushed"
    "start \<in># pushed" "\<forall>n. n \<in># pushed \<longrightarrow> n = start \<or> visited (nodeState (graph st) n)"
    and alt: "\<forall>n. n \<in># pushed \<longrightarrow>
          visited (nodeState (graph st) n) \<or> closed (nodeState (graph st) n)"
    by (auto simp: push_inv_def)
  show ?case
  proof (cases "pushes (graph st) neighbor")
    case True
    then have new: "neighbor \<notin># pushed" using alt by (auto simp: pushes_def)
    then have nc: "neighbor \<notin> set (content (openHeap st))" using inv(3) by auto
    have L: "pushed + (mset (content (openHeap st')) - mset (content (openHeap st))) =
             add_mset neighbor pushed"
      using vc(1) True by simp
    have ms': "mset (content (openHeap st')) = mset (neighbor # content (openHeap st))"
      using vc(1) True by simp
    from mset_eq_imp_distinct_iff[OF ms'] inv(2) nc have d: "distinct (content (openHeap st'))"
      by simp
    from mset_eq_setD[OF ms']
    have s: "set (content (openHeap st')) = insert neighbor (set (content (openHeap st)))"
      by simp
    have 1: "\<forall>n. count (add_mset neighbor pushed) n \<le> 1"
      using inv(1) new by (simp add: not_in_iff)
    have 2: "set (content (openHeap st')) \<subseteq> set_mset (add_mset neighbor pushed)"
      using s inv(3) by auto
    have 3: "\<forall>n. n \<in># add_mset neighbor pushed \<longrightarrow>
                n = start \<or> visited (nodeState (graph st') n)"
      using inv(5) vc(2)[OF True] vc(3) by auto
    have 4: "\<forall>n. n \<in># add_mset neighbor pushed \<longrightarrow>
          visited (nodeState (graph st') n) \<or> closed (nodeState (graph st') n)"
      using alt vc(2)[OF True] vc(3) vc(4) by auto
    show ?thesis
      unfolding push_inv_def L using 1 2 3 4 d inv(4) by simp
  next
    case False
    have m: "mset (content (openHeap st')) = mset (content (openHeap st))"
      using vc(1) False by simp
    then have L: "pushed + (mset (content (openHeap st')) - mset (content (openHeap st))) = pushed"
      by simp
    have d: "distinct (content (openHeap st'))"
      using m inv(2) by (metis mset_eq_imp_distinct_iff)
    have s: "set (content (openHeap st')) = set (content (openHeap st))"
      using m by (rule mset_eq_setD)
    have 3: "\<forall>n. n \<in># pushed \<longrightarrow> n = start \<or> visited (nodeState (graph st') n)"
      using inv(5) vc(3) by auto
    have 4: "\<forall>n. n \<in># pushed \<longrightarrow>
          visited (nodeState (graph st') n) \<or> closed (nodeState (graph st') n)"
      using alt vc(3) vc(4) by auto
    show ?thesis
      unfolding push_inv_def L using inv(1,3,4) 3 4 d s by simp
  qed
next
  case (round currentNode st pushed)
  then show ?case by (auto simp: push_inv_def)
qed


text \<open>
  Claim C9 (as amended). During a call of \<^verbatim>\<open>search\<close>, every node enters the open heap at most
  once, so that the heap never holds two entries for the same node, and every node in the
  heap has been pushed. Every pushed node other than \<^verbatim>\<open>start\<close> has its \<^verbatim>\<open>visited\<close> flag set.
  A step of the \<^verbatim>\<open>for\<close> loop pushes the neighbour exactly when this is neither closed nor a
  wall and its \<^verbatim>\<open>visited\<close> flag is false, and the step sets the flag; in every other case,
  that of an improved open node included, which goes through \<^verbatim>\<open>rescoreElement\<close>, the heap
  holds the same nodes after the step as before. The push of \<^verbatim>\<open>start\<close> before the loop does
  not set \<^verbatim>\<open>visited\<close>: what keeps \<^verbatim>\<open>start\<close> from a second push is that the first round closes
  it.
\<close>

theorem each_node_pushed_at_most_once:
  assumes "reached g start end closest heuristic pt st pushed"
  shows "(\<forall>n. count pushed n \<le> 1) \<and> distinct (content (openHeap st)) \<and>
         set (content (openHeap st)) \<subseteq> set_mset pushed \<and>
         (\<forall>n. n \<in># pushed \<longrightarrow> n = start \<or> visited (nodeState (graph st) n)) \<and>
         (\<forall>currentNode neighbor ns st'.
            pt = Body currentNode (neighbor # ns) \<and>
            visit_neighbor closest heuristic end currentNode st neighbor = Inr st' \<longrightarrow>
              mset (content (openHeap st')) =
                mset (content (openHeap st)) +
                (if pushes (graph st) neighbor then {#neighbor#} else {#}) \<and>
              (pushes (graph st) neighbor \<longrightarrow> visited (nodeState (graph st') neighbor)))"
proof -
  from reached_push_inv[OF assms] have "(\<forall>n. count pushed n \<le> 1)"
    "distinct (content (openHeap st))" "set (content (openHeap st)) \<subseteq> set_mset pushed"
    "\<forall>n. n \<in># pushed \<longrightarrow> n = start \<or> visited (nodeState (graph st) n)"
    by (simp_all add: push_inv_def)
  moreover have "\<forall>currentNode neighbor ns st'.
            pt = Body currentNode (neighbor # ns) \<and>
            visit_neighbor closest heuristic end currentNode st neighbor = Inr st' \<longrightarrow>
              mset (content (openHeap st')) =
                mset (content (openHeap st)) +
                (if pushes (graph st) neighbor then {#neighbor#} else {#}) \<and>
              (pushes (graph st) neighbor \<longrightarrow> visited (nodeState (graph st') neighbor))"
    using visit_neighbor_content(1,2) by blast
  ultimately show ?thesis by blast
qed

definition grid_pair :: Graph where
  "grid_pair = new_Graph [[1, 1]] False"

lemma reached_grid_pair:
  "\<exists>st0 st. search_init grid_pair \<lparr>node_x = 0, node_y = 0, node_w = 1\<rparr>
               \<lparr>node_x = 0, node_y = 1, node_w = 1\<rparr> manhattan = Inr st0 \<and>
      content (openHeap st0) = [\<lparr>node_x = 0, node_y = 0, node_w = 1\<rparr>] \<and>
      visited (nodeState (graph st0) \<lparr>node_x = 0, node_y = 0, node_w = 1\<rparr>) = False \<and>
      reached grid_pair \<lparr>node_x = 0, node_y = 0, node_w = 1\<rparr> \<lparr>node_x = 0, node_y = 1, node_w = 1\<rparr>
        False manhattan Head st0 {#\<lparr>node_x = 0, node_y = 0, node_w = 1\<rparr>#} \<and>
      reached grid_pair \<lparr>node_x = 0, node_y = 0, node_w = 1\<rparr> \<lparr>node_x = 0, node_y = 1, node_w = 1\<rparr>
        False manhattan (Body \<lparr>node_x = 0, node_y = 0, node_w = 1\<rparr> []) st
        {#\<lparr>node_x = 0, node_y = 0, node_w = 1\<rparr>, \<lparr>node_x = 0, node_y = 1, node_w = 1\<rparr>#}"
proof -
  let ?s = "\<lparr>node_x = 0, node_y = 0, node_w = 1\<rparr>"
  let ?e = "\<lparr>node_x = 0, node_y = 1, node_w = 1\<rparr>"
  define G0 where "G0 = (cleanDirty grid_pair)\<lparr>nodeState := (nodeState (cleanDirty grid_pair))(?s :=
                      (nodeState (cleanDirty grid_pair) ?s)\<lparr>node_h := manhattan (pos_of ?s) (pos_of ?e)\<rparr>),
                    dirtyNodes := [?s]\<rparr>"
  define st0 where "st0 = \<lparr>graph = G0, openHeap = \<lparr>content = [?s], content_m1 = None\<rparr>,
                          closestNode = ?s\<rparr>"
  define st1 where "st1 = st0\<lparr>openHeap := \<lparr>content = [], content_m1 = None\<rparr>,
                             graph := close_node G0 ?s\<rparr>"
  have i: "search_init grid_pair ?s ?e manhattan = Inr st0"
    by (simp add: search_init_result st0_def G0_def)
  have c0: "content (openHeap st0) = [?s]" by (simp add: st0_def)
  have v0: "visited (nodeState (graph st0) ?s) = False"
    by (simp add: st0_def G0_def grid_pair_def cleanDirty_eq clean_state_def)
  from reached.init[OF i, of False]
  have r0: "reached grid_pair ?s ?e False manhattan Head st0 {#?s#}" by (simp add: c0)
  have p: "pop (f_score (graph st0)) (openHeap st0) =
             Inr (Some ?s, \<lparr>content = [], content_m1 = None\<rparr>)"
    by (simp add: pop_list st0_def)
  have "neighbors G0 ?s = neighbors grid_pair ?s"
    by (rule neighbors_cong) (simp_all add: G0_def cleanDirty_eq)
  also have "\<dots> = [?e]"
    by (simp add: grid_pair_def neighbors_def push_cell_def grid_at_def js_nth_def make_row_def
          upt_rec)
  finally have n: "neighbors G0 ?s = [?e]" .
  have "reached grid_pair ?s ?e False manhattan (Body ?s (neighbors (close_node G0 ?s) ?s))
          (st0\<lparr>openHeap := \<lparr>content = [], content_m1 = None\<rparr>, graph := close_node G0 ?s\<rparr>) {#?s#}"
    by (rule reached.pop[OF r0 _ p]) (simp_all add: st0_def size_heap_def)
  then have r1: "reached grid_pair ?s ?e False manhattan (Body ?s [?e]) st1 {#?s#}"
    by (simp add: n st1_def)
  have pu: "pushes (graph st1) ?e"
    by (simp add: pushes_def st1_def st0_def G0_def grid_pair_def cleanDirty_eq clean_state_def
          isNodeWall_def)
  from visit_neighbor_result[of False manhattan ?e ?s st1 ?e] obtain st2 where
    v: "visit_neighbor False manhattan ?e ?s st1 ?e = Inr st2" by blast
  have "mset (content (openHeap st2)) - mset (content (openHeap st1)) = {#?e#}"
    using visit_neighbor_content(1)[OF v] pu by simp
  with reached.visit[OF r1 v]
  have "reached grid_pair ?s ?e False manhattan (Body ?s []) st2 {#?s, ?e#}"
    by (simp add: add_mset_commute)
  with i c0 v0 r0 show ?thesis by blast
qed

text \<open>The theorem for claim C9 on the row \<open>[1, 1]\<close>, after the first round of the search from
  \<open>(0, 0)\<close> to \<open>(0, 1)\<close> has pushed the goal.\<close>

theorem each_node_pushed_at_most_once_witness:
  "\<exists>st. reached grid_pair \<lparr>node_x = 0, node_y = 0, node_w = 1\<rparr> \<lparr>node_x = 0, node_y = 1, node_w = 1\<rparr>
        False manhattan (Body \<lparr>node_x = 0, node_y = 0, node_w = 1\<rparr> []) st
        {#\<lparr>node_x = 0, node_y = 0, node_w = 1\<rparr>, \<lparr>node_x = 0, node_y = 1, node_w = 1\<rparr>#} \<and>
      distinct (content (openHeap st)) \<and>
      visited (nodeState (graph st) \<lparr>node_x = 0, node_y = 1, node_w = 1\<rparr>)"
proof -
  from reached_grid_pair obtain st where
    r: "reached grid_pair \<lparr>node_x = 0, node_y = 0, node_w = 1\<rparr> \<lparr>node_x = 0, node_y = 1, node_w = 1\<rparr>
        False manhattan (Body \<lparr>node_x = 0, node_y = 0, node_w = 1\<rparr> []) st
        {#\<lparr>node_x = 0, node_y = 0, node_w = 1\<rparr>, \<lparr>node_x = 0, node_y = 1, node_w = 1\<rparr>#}"
    by blast
  from each_node_pushed_at_most_once[OF r] have "distinct (content (openHeap st))"
    "visited (nodeState (graph st) \<lparr>node_x = 0, node_y = 1, node_w = 1\<rparr>)"
    by auto
  with r show ?thesis by blast
qed

text \<open>
  The claim C9 as stated fails in "the push sets visited to true": in the search from
  \<open>(0, 0)\<close> to \<open>(0, 1)\<close> on the row \<open>[1, 1]\<close>, the node \<open>(0, 0)\<close> is pushed before the loop and is
  the content of the heap at the first test of the loop, and its \<^verbatim>\<open>visited\<close> flag is false
  there.
\<close>

theorem start_pushed_not_visited:
  "\<exists>st. search_init grid_pair \<lparr>node_x = 0, node_y = 0, node_w = 1\<rparr>
               \<lparr>node_x = 0, node_y = 1, node_w = 1\<rparr> manhattan = Inr st \<and>
      reached grid_pair \<lparr>node_x = 0, node_y = 0, node_w = 1\<rparr> \<lparr>node_x = 0, node_y = 1, node_w = 1\<rparr>
        False manhattan Head st {#\<lparr>node_x = 0, node_y = 0, node_w = 1\<rparr>#} \<and>
      content (openHeap st) = [\<lparr>node_x = 0, node_y = 0, node_w = 1\<rparr>] \<and>
      visited (nodeState (graph st) \<lparr>node_x = 0, node_y = 0, node_w = 1\<rparr>) = False"
  using reached_grid_pair by blast

section \<open>The sums of a search in double arithmetic\<close>



lemma finite_grid_nodes [simp]: "finite (grid_nodes g)"
  by (simp add: grid_nodes_def)



section \<open>The returned path is a cheapest one\<close>



end
